theory Spec2Isabelle
  imports Complex_Main
begin

unbundle bit_operations_syntax

section \<open>The buddy-system allocator of \<^verbatim>\<open>src/buddy_system.py\<close>\<close>

text \<open>
  The class \<^verbatim>\<open>BuddySystemAllocator\<close> is embedded as a record of its five attributes and
  one HOL function per method. Every method takes the allocator and returns the allocator
  as the call leaves it, paired with the outcome of the call: the returned value, or the
  Python exception that the call raises. Python integers are \<open>int\<close>; the level indices,
  which the code only ever produces as non-negative numbers, are \<open>nat\<close>; the list of
  per-level sets is an \<open>int set list\<close>; the dictionary of allocated blocks is a map.

  The code computes levels in floating point. A double is modelled as the real number it
  denotes. The true division of two integers is the exact quotient rounded to the nearest
  double, ties to even, and it raises \<^verbatim>\<open>OverflowError\<close> when that is out of the range of
  the doubles. What \<^verbatim>\<open>math.log2\<close> returns is not fixed by the language, so it is a
  parameter of the model, the \<open>platform\<close>; the theorems that depend on its values assume
  only that it is exact on the powers of two (\<open>platform_ok\<close>). In the same way, what
  \<^verbatim>\<open>set.pop()\<close> removes is a parameter \<open>pop\<close> of \<open>allocate\<close>, of which the theorems
  assume only that it picks a member of every finite non-empty set.
\<close>

subsection \<open>Data\<close>

datatype py_error = ZeroDivisionError | ValueError | IndexError | OverflowError

datatype 'a outcome = Returned 'a | Raised py_error

record allocator =
  total_size :: int
  min_size :: int
  levels :: nat
  free_blocks :: "int set list"
  allocated_blocks :: "int \<rightharpoonup> int"

subsection \<open>Floating point\<close>

text \<open>Rounding a real to the nearest integer, ties to the even one.\<close>

definition round_half_even :: "real \<Rightarrow> int" where
  "round_half_even x =
     (let n = \<lfloor>x\<rfloor>; r = x - of_int n
      in if r < 1 / 2 then n else if 1 / 2 < r then n + 1 else if even n then n else n + 1)"

text \<open>
  Rounding a real to binary64 with an unbounded exponent upwards: 53 significant bits,
  the spacing of the subnormal numbers below \<open>2 powr - 1022\<close>.
\<close>

definition round_double :: "real \<Rightarrow> real" where
  "round_double x =
     (if x = 0 then 0
      else
        let e = max \<lfloor>log 2 \<bar>x\<bar>\<rfloor> (- 1022);
            u = 2 powr (of_int e - 52)
        in sgn x * (of_int (round_half_even (\<bar>x\<bar> / u)) * u))"

text \<open>
  \<^verbatim>\<open>a / b\<close> on Python integers: \<^verbatim>\<open>ZeroDivisionError\<close> on a zero divisor, the correctly
  rounded quotient otherwise, \<^verbatim>\<open>OverflowError\<close> when it is too large for a double.
\<close>

definition true_div :: "int \<Rightarrow> int \<Rightarrow> real outcome" where
  "true_div a b =
     (if b = 0 then Raised ZeroDivisionError
      else
        let q = round_double (real_of_int a / real_of_int b)
        in if 2 ^ 1024 \<le> \<bar>q\<bar> then Raised OverflowError else Returned q)"

text \<open>
  The platform: \<^verbatim>\<open>math.log2\<close> on a positive double and on a positive integer (which the
  library converts itself, also beyond the range of the doubles).
\<close>

record platform =
  log2_float :: "real \<Rightarrow> real"
  log2_int :: "int \<Rightarrow> real"

text \<open>\<^verbatim>\<open>int(x)\<close> on a double: truncation towards zero.\<close>

definition int_of_float :: "real \<Rightarrow> int" where
  "int_of_float x = (if 0 \<le> x then \<lfloor>x\<rfloor> else \<lceil>x\<rceil>)"

subsection \<open>The constructor\<close>

text \<open>
  \<^verbatim>\<open>__init__\<close>. The floor division raises \<^verbatim>\<open>ZeroDivisionError\<close> on a zero divisor and
  \<^verbatim>\<open>math.log2\<close> raises \<^verbatim>\<open>ValueError\<close> on an argument that is not positive. Python's
  \<^verbatim>\<open>//\<close> rounds towards minus infinity, as \<open>div\<close> on \<open>int\<close> does. Were the number of
  levels not positive, the list of free sets would be empty and \<^verbatim>\<open>self.free_blocks[-1]\<close>
  would raise \<^verbatim>\<open>IndexError\<close>.
\<close>

definition init :: "platform \<Rightarrow> int \<Rightarrow> int \<Rightarrow> allocator outcome" where
  "init p total_memory_mb min_block_mb =
     (if min_block_mb = 0 then Raised ZeroDivisionError
      else if total_memory_mb div min_block_mb \<le> 0 then Raised ValueError
      else
        let L = int_of_float (log2_int p (total_memory_mb div min_block_mb)) + 1 in
        if L \<le> 0 then Raised IndexError
        else
          Returned \<lparr>total_size = total_memory_mb,
                    min_size = min_block_mb,
                    levels = nat L,
                    free_blocks = (replicate (nat L) {})[nat L - 1 := {0}],
                    allocated_blocks = Map.empty\<rparr>)"

subsection \<open>Level selection\<close>

text \<open>
  \<^verbatim>\<open>_get_level\<close>: the clamp to the minimum size, the true division, \<^verbatim>\<open>math.log2\<close>, which
  raises \<^verbatim>\<open>ValueError\<close> on a double that is not positive, \<^verbatim>\<open>math.ceil\<close> and the maximum
  with 0.
\<close>

definition get_level :: "platform \<Rightarrow> allocator \<Rightarrow> int \<Rightarrow> nat outcome" where
  "get_level p a size_mb =
     (let sz = (if size_mb < min_size a then min_size a else size_mb) in
      case true_div sz (min_size a) of
        Raised e \<Rightarrow> Raised e
      | Returned q \<Rightarrow>
          if q \<le> 0 then Raised ValueError
          else Returned (nat (max 0 \<lceil>log2_float p q\<rceil>)))"

subsection \<open>Allocation\<close>

text \<open>
  The \<^verbatim>\<open>for lvl in range(level, self.levels)\<close> scan for the first non-empty set. Reading
  the list beyond its end raises \<^verbatim>\<open>IndexError\<close>.
\<close>

function find_free :: "int set list \<Rightarrow> nat \<Rightarrow> nat \<Rightarrow> nat option outcome" where
  "find_free fb L lvl =
     (if lvl < L then
        (if length fb \<le> lvl then Raised IndexError
         else if fb ! lvl \<noteq> {} then Returned (Some lvl)
         else find_free fb L (Suc lvl))
      else Returned None)"
  by pat_completeness auto
termination
  by (relation "measure (\<lambda>(fb, L, lvl). L - lvl)") auto

declare find_free.simps [simp del]

text \<open>The \<^verbatim>\<open>while lvl > level\<close> loop that splits the block found.\<close>

function split :: "int \<Rightarrow> nat \<Rightarrow> int \<Rightarrow> int set list \<Rightarrow> nat \<Rightarrow> int set list" where
  "split S level addr fb lvl =
     (if level < lvl then
        (let lvl' = lvl - 1;
             buddy_addr = addr + push_bit lvl' S
         in split S level addr (fb[lvl' := insert buddy_addr (fb ! lvl')]) lvl')
      else fb)"
  by pat_completeness auto
termination
  by (relation "measure (\<lambda>(S, level, addr, fb, lvl). lvl)") auto

declare split.simps [simp del]

definition allocate ::
  "platform \<Rightarrow> (int set \<Rightarrow> int) \<Rightarrow> allocator \<Rightarrow> int \<Rightarrow> allocator \<times> int option outcome" where
  "allocate p pop a size_mb =
     (case get_level p a size_mb of
        Raised e \<Rightarrow> (a, Raised e)
      | Returned level \<Rightarrow>
          (case find_free (free_blocks a) (levels a) level of
             Raised e \<Rightarrow> (a, Raised e)
           | Returned None \<Rightarrow> (a, Returned None)
           | Returned (Some lvl) \<Rightarrow>
               (let addr = pop (free_blocks a ! lvl);
                    fb = (free_blocks a)[lvl := free_blocks a ! lvl - {addr}];
                    fb' = split (min_size a) level addr fb lvl
                in (a\<lparr>free_blocks := fb',
                      allocated_blocks := (allocated_blocks a)(addr \<mapsto> push_bit level (min_size a))\<rparr>,
                    Returned (Some addr)))))"

subsection \<open>Deallocation\<close>

text \<open>
  The coalescing loop \<^verbatim>\<open>while current_level < self.levels - 1\<close>, with its \<^verbatim>\<open>break\<close>. It
  returns the list of free sets as the loop leaves it, with the final
  \<^verbatim>\<open>current_addr\<close> and \<^verbatim>\<open>current_level\<close>.
\<close>

function coalesce :: "int \<Rightarrow> nat \<Rightarrow> int set list \<Rightarrow> int \<Rightarrow> nat \<Rightarrow> int set list \<times> (int \<times> nat) outcome" where
  "coalesce S L fb current_addr current_level =
     (if int current_level < int L - 1 then
        (let buddy_addr = current_addr XOR push_bit current_level S in
         if length fb \<le> current_level then (fb, Raised IndexError)
         else if buddy_addr \<in> fb ! current_level then
           coalesce S L (fb[current_level := fb ! current_level - {buddy_addr}])
             (min current_addr buddy_addr) (Suc current_level)
         else (fb, Returned (current_addr, current_level)))
      else (fb, Returned (current_addr, current_level)))"
  by pat_completeness auto
termination
  by (relation "measure (\<lambda>(S, L, fb, current_addr, current_level). L - current_level)") auto

declare coalesce.simps [simp del]

text \<open>
  \<^verbatim>\<open>deallocate\<close>. The entry is popped from the dictionary before the level of its size is
  computed, so an exception of \<^verbatim>\<open>_get_level\<close> leaves the allocator without the entry.
\<close>

definition deallocate :: "platform \<Rightarrow> allocator \<Rightarrow> int \<Rightarrow> allocator \<times> bool outcome" where
  "deallocate p a addr =
     (case allocated_blocks a addr of
        None \<Rightarrow> (a, Returned False)
      | Some sz \<Rightarrow>
          (let a1 = a\<lparr>allocated_blocks := (allocated_blocks a)(addr := None)\<rparr> in
           case get_level p a1 sz of
             Raised e \<Rightarrow> (a1, Raised e)
           | Returned level \<Rightarrow>
               (case coalesce (min_size a1) (levels a1) (free_blocks a1) addr level of
                  (fb, Raised e) \<Rightarrow> (a1\<lparr>free_blocks := fb\<rparr>, Raised e)
                | (fb, Returned (current_addr, current_level)) \<Rightarrow>
                    if length fb \<le> current_level then (a1\<lparr>free_blocks := fb\<rparr>, Raised IndexError)
                    else (a1\<lparr>free_blocks := fb[current_level := insert current_addr (fb ! current_level)]\<rparr>,
                          Returned True))))"

subsection \<open>The memory map\<close>

text \<open>
  \<^verbatim>\<open>memory_map\<close> builds a text: two header lines, then one line for every allocated block
  in the order of \<^verbatim>\<open>sorted(self.allocated_blocks.items())\<close>, then, level by level, one
  line for every free block in the order of \<^verbatim>\<open>sorted(self.free_blocks[lvl])\<close>. The blocks
  behind the lines are \<open>memory_map_entries\<close>; a block is its state, its address and its
  size. The method assigns to no attribute, so the allocator it returns is the one it got.
\<close>

datatype block_state = Allocated | Free

type_synonym block = "block_state \<times> int \<times> int"

definition address :: "block \<Rightarrow> int" where
  "address b = fst (snd b)"

definition block_size :: "block \<Rightarrow> int" where
  "block_size b = snd (snd b)"

definition memory_map_entries :: "allocator \<Rightarrow> block list" where
  "memory_map_entries a =
     map (\<lambda>addr. (Allocated, addr, the (allocated_blocks a addr)))
       (sorted_list_of_set (dom (allocated_blocks a))) @
     concat (map (\<lambda>lvl. map (\<lambda>addr. (Free, addr, push_bit lvl (min_size a)))
                          (sorted_list_of_set (free_blocks a ! lvl)))
              [0..<levels a])"

text \<open>Decimal digits of a natural number, and \<^verbatim>\<open>str\<close> of an integer.\<close>

function digits :: "nat \<Rightarrow> string" where
  "digits n = (if n < 10 then [char_of (48 + n)] else digits (n div 10) @ [char_of (48 + n mod 10)])"
  by pat_completeness auto
termination
  by (relation "measure (\<lambda>n. n)") auto

declare digits.simps [simp del]

definition str_int :: "int \<Rightarrow> string" where
  "str_int i = (if i < 0 then CHR ''-'' # digits (nat (- i)) else digits (nat i))"

text \<open>The format \<^verbatim>\<open>{:8d}\<close>: right-justified in a field of at least eight characters.\<close>

definition fmt_8d :: "int \<Rightarrow> string" where
  "fmt_8d i = replicate (8 - length (str_int i)) CHR '' '' @ str_int i"

definition newline :: string where
  "newline = [char_of (10::nat)]"

definition map_line :: "block \<Rightarrow> string" where
  "map_line b =
     (case b of (st, addr, sz) \<Rightarrow>
        (case st of Allocated \<Rightarrow> ''Allocated: '' | Free \<Rightarrow> ''Free:     '') @
        fmt_8d addr @ ''-'' @ fmt_8d (addr + sz - 1) @ '' ('' @ str_int sz @ ''MB)'' @ newline)"

definition memory_map :: "allocator \<Rightarrow> allocator \<times> string outcome" where
  "memory_map a =
     (if length (free_blocks a) < levels a then (a, Raised IndexError)
      else
        (a, Returned
          (''Buddy System Memory Map ('' @ str_int (total_size a) @ ''MB total)'' @ newline @
           replicate 60 CHR ''-'' @ newline @
           concat (map map_line (memory_map_entries a)))))"

subsection \<open>Sequences of calls\<close>

text \<open>
  A call of \<^verbatim>\<open>allocate\<close> comes with the choice that its \<^verbatim>\<open>pop()\<close> makes, so that
  different calls may choose differently. A caller that catches an exception goes on with
  the allocator as the failed call left it.
\<close>

datatype call = Allocate "int set \<Rightarrow> int" int | Deallocate int

fun perform :: "platform \<Rightarrow> allocator \<Rightarrow> call \<Rightarrow> allocator" where
  "perform p a (Allocate pop size_mb) = fst (allocate p pop a size_mb)"
| "perform p a (Deallocate addr) = fst (deallocate p a addr)"

definition run :: "platform \<Rightarrow> allocator \<Rightarrow> call list \<Rightarrow> allocator" where
  "run p a cs = foldl (perform p) a cs"

text \<open>What is assumed of \<^verbatim>\<open>set.pop()\<close>: it returns a member of a finite non-empty set.\<close>

definition pop_ok :: "(int set \<Rightarrow> int) \<Rightarrow> bool" where
  "pop_ok pop \<longleftrightarrow> (\<forall>A. finite A \<and> A \<noteq> {} \<longrightarrow> pop A \<in> A)"

fun call_ok :: "call \<Rightarrow> bool" where
  "call_ok (Allocate pop size_mb) = pop_ok pop"
| "call_ok (Deallocate addr) = True"

text \<open>
  What is assumed of \<^verbatim>\<open>math.log2\<close>: it is exact on the powers of two, on the doubles
  (which end below \<open>2 ^ 1024\<close>) and on the integers.
\<close>

definition platform_ok :: "platform \<Rightarrow> bool" where
  "platform_ok p \<longleftrightarrow>
     (\<forall>k\<le>1023. log2_float p (2 ^ k) = real k) \<and> (\<forall>k. log2_int p (2 ^ k) = real k)"

text \<open>The platform whose \<^verbatim>\<open>math.log2\<close> is the logarithm itself; it serves in examples.\<close>

definition ideal :: platform where
  "ideal = \<lparr>log2_float = log 2, log2_int = (\<lambda>n. log 2 (real_of_int n))\<rparr>"

subsection \<open>The invariants of the data model\<close>

text \<open>
  The blocks of an allocator: the free block of every address in every per-level set, with
  the size of its level, and the allocated block of every entry of the dictionary.
\<close>

definition blocks :: "allocator \<Rightarrow> block set" where
  "blocks a =
     {(Free, x, push_bit l (min_size a)) | l x. l < levels a \<and> x \<in> free_blocks a ! l} \<union>
     {(Allocated, x, sz) | x sz. allocated_blocks a x = Some sz}"

definition region :: "block \<Rightarrow> int set" where
  "region b = {address b ..< address b + block_size b}"

text \<open>
  The blocks \<open>B\<close> together with the addresses \<open>H\<close> tile the range from \<open>0\<close> to \<open>T\<close>: no
  block is empty, no two blocks overlap, no block meets \<open>H\<close>, and nothing of the range is
  left out. \<open>H\<close> is the block that a call holds in hand between taking it out of one
  structure and putting it into another; before and after a call it is empty.
\<close>

definition tiling :: "block set \<Rightarrow> int set \<Rightarrow> int \<Rightarrow> bool" where
  "tiling B H T \<longleftrightarrow>
     (\<forall>b\<in>B. 0 < block_size b) \<and>
     (\<forall>b\<in>B. \<forall>c\<in>B. b \<noteq> c \<longrightarrow> region b \<inter> region c = {}) \<and>
     (\<forall>b\<in>B. region b \<inter> H = {}) \<and>
     (\<Union>b\<in>B. region b) \<union> H = {0..<T}"

text \<open>The shape of a constructed allocator over a positive minimum block size.\<close>

definition well_formed :: "allocator \<Rightarrow> bool" where
  "well_formed a \<longleftrightarrow>
     0 < min_size a \<and> 0 < levels a \<and>
     total_size a = push_bit (levels a - 1) (min_size a) \<and>
     length (free_blocks a) = levels a \<and>
     (\<forall>l<levels a. finite (free_blocks a ! l)) \<and>
     finite (dom (allocated_blocks a)) \<and>
     (\<forall>x sz. allocated_blocks a x = Some sz \<longrightarrow> (\<exists>k<levels a. sz = push_bit k (min_size a)))"

text \<open>Invariant 1: every block starts at a multiple of its own size.\<close>

definition aligned :: "allocator \<Rightarrow> bool" where
  "aligned a \<longleftrightarrow>
     (\<forall>l<levels a. \<forall>x\<in>free_blocks a ! l. push_bit l (min_size a) dvd x) \<and>
     (\<forall>x sz. allocated_blocks a x = Some sz \<longrightarrow> sz dvd x)"

definition holding :: "allocator \<Rightarrow> int set \<Rightarrow> bool" where
  "holding a H \<longleftrightarrow> well_formed a \<and> aligned a \<and> tiling (blocks a) H (total_size a)"

text \<open>Invariants 1 to 3 (invariant 2 is a part of the tiling: no two blocks overlap).\<close>

definition invariant :: "allocator \<Rightarrow> bool" where
  "invariant a \<longleftrightarrow> holding a {}"

text \<open>
  The shape and invariant 1 alone, without the tiling: what a call keeps even when it
  raises an exception after it has taken a block out of the allocated map.
\<close>

definition sound :: "allocator \<Rightarrow> bool" where
  "sound a \<longleftrightarrow> well_formed a \<and> aligned a"

text \<open>
  Invariant 4. Two blocks of size \<open>M\<close> are buddies when they are the two halves of one
  block of size \<open>2 * M\<close> that starts at a multiple of \<open>2 * M\<close>.
\<close>

definition buddies :: "int \<Rightarrow> int \<Rightarrow> int \<Rightarrow> bool" where
  "buddies M x y \<longleftrightarrow> (2 * M dvd x \<and> y = x + M) \<or> (2 * M dvd y \<and> x = y + M)"

definition no_free_buddies :: "allocator \<Rightarrow> bool" where
  "no_free_buddies a \<longleftrightarrow>
     (\<forall>l<levels a. \<forall>x\<in>free_blocks a ! l. \<forall>y\<in>free_blocks a ! l.
        \<not> buddies (push_bit l (min_size a)) x y)"

text \<open>The two sums of the conservation property.\<close>

definition free_total :: "allocator \<Rightarrow> int" where
  "free_total a = (\<Sum>l<levels a. \<Sum>x\<in>free_blocks a ! l. push_bit l (min_size a))"

definition allocated_total :: "allocator \<Rightarrow> int" where
  "allocated_total a = (\<Sum>x\<in>dom (allocated_blocks a). the (allocated_blocks a x))"

subsection \<open>The coalescing loop as the specification words it\<close>

text \<open>
  The loop of the specification: compute the buddy; while the buddy is free at the current
  level and the level is below the top one, remove the buddy, go on from the lower of the
  two addresses one level up; at the end insert the address at the level reached.
\<close>

function coalesce_spec :: "int \<Rightarrow> nat \<Rightarrow> int set list \<Rightarrow> int \<Rightarrow> nat \<Rightarrow> int set list" where
  "coalesce_spec S L fb current_addr current_level =
     (let buddy = current_addr XOR (S * 2 ^ current_level) in
      if buddy \<in> fb ! current_level \<and> Suc current_level < L then
        coalesce_spec S L (fb[current_level := fb ! current_level - {buddy}])
          (min current_addr buddy) (Suc current_level)
      else fb[current_level := insert current_addr (fb ! current_level)])"
  by pat_completeness auto
termination
  by (relation "measure (\<lambda>(S, L, fb, current_addr, current_level). L - current_level)") auto

declare coalesce_spec.simps [simp del]

subsection \<open>Allocators of the scenarios\<close>

definition fresh_1024_128 :: allocator where
  "fresh_1024_128 =
     \<lparr>total_size = 1024, min_size = 128, levels = 4,
      free_blocks = [{}, {}, {}, {0}], allocated_blocks = Map.empty\<rparr>"

definition full_1024_128 :: allocator where
  "full_1024_128 =
     \<lparr>total_size = 1024, min_size = 128, levels = 4,
      free_blocks = [{}, {}, {}, {}], allocated_blocks = [0 \<mapsto> 1024]\<rparr>"

definition after_zero_request :: allocator where
  "after_zero_request =
     \<lparr>total_size = 1024, min_size = 128, levels = 4,
      free_blocks = [{128}, {256}, {512}, {}], allocated_blocks = [0 \<mapsto> 128]\<rparr>"

definition scenario_1 :: allocator where
  "scenario_1 = \<lparr>total_size = 1024, min_size = 128, levels = 4,
     free_blocks = [{128}, {256}, {512}, {}], allocated_blocks = [0 \<mapsto> 128]\<rparr>"

definition scenario_2 :: allocator where
  "scenario_2 = \<lparr>total_size = 1024, min_size = 128, levels = 4,
     free_blocks = [{}, {256}, {512}, {}], allocated_blocks = [0 \<mapsto> 128, 128 \<mapsto> 128]\<rparr>"

definition scenario_3 :: allocator where
  "scenario_3 = \<lparr>total_size = 1024, min_size = 128, levels = 4,
     free_blocks = [{}, {}, {512}, {}],
     allocated_blocks = [0 \<mapsto> 128, 128 \<mapsto> 128, 256 \<mapsto> 256]\<rparr>"

definition scenario_4 :: allocator where
  "scenario_4 = \<lparr>total_size = 1024, min_size = 128, levels = 4,
     free_blocks = [{0}, {}, {512}, {}], allocated_blocks = [128 \<mapsto> 128, 256 \<mapsto> 256]\<rparr>"

definition scenario_5 :: allocator where
  "scenario_5 = \<lparr>total_size = 1024, min_size = 128, levels = 4,
     free_blocks = [{}, {0}, {512}, {}], allocated_blocks = [256 \<mapsto> 256]\<rparr>"

definition map_example :: allocator where
  "map_example = \<lparr>total_size = 1024, min_size = 128, levels = 4,
     free_blocks = [{0}, {256}, {512}, {}], allocated_blocks = [128 \<mapsto> 128]\<rparr>"

definition fresh_24_3 :: allocator where
  "fresh_24_3 = \<lparr>total_size = 24, min_size = 3, levels = 4,
     free_blocks = [{}, {}, {}, {0}], allocated_blocks = Map.empty\<rparr>"

definition odd_unit_before :: allocator where
  "odd_unit_before = \<lparr>total_size = 24, min_size = 3, levels = 4,
     free_blocks = [{}, {6}, {12}, {}], allocated_blocks = [0 \<mapsto> 3, 3 \<mapsto> 3]\<rparr>"

definition odd_unit_allocated :: allocator where
  "odd_unit_allocated = \<lparr>total_size = 24, min_size = 3, levels = 4,
     free_blocks = [{9}, {}, {12}, {}], allocated_blocks = [0 \<mapsto> 3, 3 \<mapsto> 3, 6 \<mapsto> 3]\<rparr>"

definition odd_unit_after :: allocator where
  "odd_unit_after = \<lparr>total_size = 24, min_size = 3, levels = 4,
     free_blocks = [{6, 9}, {}, {12}, {}], allocated_blocks = [0 \<mapsto> 3, 3 \<mapsto> 3]\<rparr>"

definition fresh_huge :: allocator where
  "fresh_huge = \<lparr>total_size = 2 ^ 1024, min_size = 1, levels = 1025,
     free_blocks = replicate 1024 {} @ [{0}], allocated_blocks = Map.empty\<rparr>"

definition huge_allocated :: allocator where
  "huge_allocated = \<lparr>total_size = 2 ^ 1024, min_size = 1, levels = 1025,
     free_blocks = replicate 1024 {} @ [{}], allocated_blocks = [0 \<mapsto> 2 ^ 1024]\<rparr>"

definition huge_dropped :: allocator where
  "huge_dropped = \<lparr>total_size = 2 ^ 1024, min_size = 1, levels = 1025,
     free_blocks = replicate 1024 {} @ [{}], allocated_blocks = Map.empty\<rparr>"

section \<open>Properties\<close>

subsection \<open>Floating point\<close>

lemma round_half_even_of_int [simp]: "round_half_even (of_int m) = m"
  by (simp add: round_half_even_def)

text \<open>A positive real with at most 53 significant bits above the subnormal range is a double.\<close>

lemma round_double_exact:
  assumes x: "0 < x" and e: "\<lfloor>log 2 x\<rfloor> = e" and lo: "- 1022 \<le> e"
    and m: "x = of_int m * 2 powr (of_int e - 52)"
  shows "round_double x = x"
proof -
  let ?u = "2 powr (of_int e - 52) :: real"
  have u: "0 < ?u"
    by simp
  from m u have "x / ?u = of_int m"
    by simp
  moreover from lo have "max e (- 1022) = e"
    by simp
  ultimately show ?thesis
    using x e m by (simp add: round_double_def Let_def)
qed

lemma round_double_power: "round_double (2 ^ k) = 2 ^ k"
proof (rule round_double_exact [where e = "int k" and m = "2 ^ 52"])
  show "(0::real) < 2 ^ k"
    by simp
  show "\<lfloor>log 2 (2 ^ k)\<rfloor> = int k"
    by simp
  show "- 1022 \<le> int k"
    by simp
  have "(2::real) ^ k = 2 powr (52 + (real k - 52))"
    by (simp add: powr_realpow)
  also have "\<dots> = 2 powr 52 * 2 powr (real k - 52)"
    by (simp only: powr_add)
  finally show "(2::real) ^ k = real_of_int (2 ^ 52) * 2 powr (real_of_int (int k) - 52)"
    by simp
qed

lemma round_double_big: "round_double (2 ^ 1023 + 2 ^ 1000) = 2 ^ 1023 + 2 ^ 1000"
proof (rule round_double_exact [where e = 1023 and m = "2 ^ 52 + 2 ^ 29"])
  let ?x = "2 ^ 1023 + 2 ^ 1000 :: real"
  show "0 < ?x"
    by simp
  have "2 powr 1023 \<le> ?x" and "?x < 2 powr (1023 + 1)"
    by simp_all
  then show "\<lfloor>log 2 ?x\<rfloor> = 1023"
    using floor_log_eq_powr_iff [of ?x 2 1023] by simp
  show "- 1022 \<le> (1023::int)"
    by simp
  have "(2::real) powr (real_of_int 1023 - 52) = 2 ^ 971"
    by simp
  then show "?x = real_of_int (2 ^ 52 + 2 ^ 29) * 2 powr (real_of_int 1023 - 52)"
    by simp
qed

lemma true_div_power:
  assumes "b \<noteq> 0"
  shows "true_div (b * 2 ^ k) b = (if k \<le> 1023 then Returned (2 ^ k) else Raised OverflowError)"
proof -
  have "real_of_int (b * 2 ^ k) / real_of_int b = 2 ^ k"
    using assms by simp
  moreover have "(2::real) ^ 1024 \<le> 2 ^ k \<longleftrightarrow> 1024 \<le> k"
    by (rule power_increasing_iff) simp
  then have "(2::real) ^ 1024 \<le> 2 ^ k \<longleftrightarrow> \<not> k \<le> 1023"
    by linarith
  ultimately show ?thesis
    using assms by (simp add: true_div_def Let_def round_double_power)
qed

lemma true_div_self: "b \<noteq> 0 \<Longrightarrow> true_div b b = Returned 1"
  using true_div_power [of b 0] by simp

lemma platform_ok_ideal: "platform_ok ideal"
  by (simp add: platform_ok_def ideal_def)

lemma platform_ok_float: "platform_ok p \<Longrightarrow> k \<le> 1023 \<Longrightarrow> log2_float p (2 ^ k) = real k"
  by (simp add: platform_ok_def)

lemma platform_ok_int: "platform_ok p \<Longrightarrow> log2_int p (2 ^ k) = real k"
  by (simp add: platform_ok_def)

subsection \<open>Level selection and the scan\<close>

lemma get_level_push_bit:
  assumes "platform_ok p" and "0 < min_size a" and "k \<le> 1023"
  shows "get_level p a (push_bit k (min_size a)) = Returned k"
proof -
  let ?S = "min_size a"
  have "?S * 1 \<le> ?S * 2 ^ k"
    using assms(2) by (intro mult_left_mono) simp_all
  then have clamp: "\<not> ?S * 2 ^ k < ?S"
    by simp
  from assms(2) have "true_div (?S * 2 ^ k) ?S = Returned (2 ^ k)"
    using true_div_power [of ?S k] assms(3) by simp
  moreover have "\<not> (2::real) ^ k \<le> 0"
    by (simp add: not_le)
  moreover note platform_ok_float [OF assms(1,3)]
  ultimately show ?thesis
    using clamp by (simp add: get_level_def push_bit_eq_mult)
qed

lemma get_level_overflow:
  assumes "0 < min_size a" and "1024 \<le> k"
  shows "get_level p a (push_bit k (min_size a)) = Raised OverflowError"
proof -
  let ?S = "min_size a"
  have "?S * 1 \<le> ?S * 2 ^ k"
    using assms(1) by (intro mult_left_mono) simp_all
  then have clamp: "\<not> ?S * 2 ^ k < ?S"
    by simp
  from assms have "true_div (?S * 2 ^ k) ?S = Raised OverflowError"
    using true_div_power [of ?S k] by simp
  then show ?thesis
    using clamp by (simp add: get_level_def push_bit_eq_mult)
qed

lemma get_level_le:
  assumes "platform_ok p" and "0 < min_size a" and "R \<le> min_size a"
  shows "get_level p a R = Returned 0"
proof -
  have "get_level p a R = get_level p a (push_bit 0 (min_size a))"
    using assms(3) by (auto simp: get_level_def)
  also have "\<dots> = Returned 0"
    using assms(1,2) by (rule get_level_push_bit) simp
  finally show ?thesis .
qed

lemma get_level_exact:
  assumes "platform_ok p" and "0 < min_size a" and "R = min_size a * 2 ^ k" and "k \<le> 1023"
  shows "get_level p a R = Returned k"
  using get_level_push_bit [OF assms(1,2,4)] by (simp add: assms(3) push_bit_eq_mult)

lemma get_level_ideal_big:
  assumes "min_size a = 1"
  shows "get_level ideal a (2 ^ 1023 + 2 ^ 1000) = Returned 1024"
proof -
  let ?x = "2 ^ 1023 + 2 ^ 1000 :: real"
  have arg: "real_of_int (2 ^ 1023 + 2 ^ 1000) / real_of_int 1 = ?x"
    by (simp only: of_int_add of_int_power of_int_numeral of_int_1 div_by_1)
  have small: "\<not> (2::real) ^ 1024 \<le> \<bar>?x\<bar>"
    by simp
  have q: "true_div (2 ^ 1023 + 2 ^ 1000) 1 = Returned ?x"
    unfolding true_div_def Let_def arg round_double_big using small
    by (simp only: if_False one_neq_zero)
  have clamp: "\<not> (2 ^ 1023 + 2 ^ 1000 :: int) < 1"
    by simp
  have pos: "\<not> ?x \<le> 0"
    by simp
  have "2 powr real 1023 < ?x" and "?x \<le> 2 powr real (1023 + 1)"
    by simp_all
  then have "\<lceil>log 2 ?x\<rceil> = int 1023 + 1"
    using ceiling_log_eq_powr_iff [of ?x 2 1023] by simp
  then have "\<lceil>log 2 ?x\<rceil> = 1024"
    by simp
  moreover have "log2_float ideal = log 2"
    by (simp add: ideal_def)
  ultimately have level: "nat (max 0 \<lceil>log2_float ideal ?x\<rceil>) = 1024"
    by (simp only: max.absorb2 zero_le_numeral nat_numeral)
  have "get_level ideal a (2 ^ 1023 + 2 ^ 1000) =
      (case true_div (2 ^ 1023 + 2 ^ 1000) 1 of
         Raised e \<Rightarrow> Raised e
       | Returned q \<Rightarrow>
           if q \<le> 0 then Raised ValueError
           else Returned (nat (max 0 \<lceil>log2_float ideal q\<rceil>)))"
    unfolding get_level_def assms Let_def using clamp by (simp only: if_False)
  also have "\<dots> = Returned (nat (max 0 \<lceil>log2_float ideal ?x\<rceil>))"
    unfolding q using pos by (simp only: outcome.case if_False)
  finally show ?thesis
    unfolding level .
qed

lemma get_level_allocated_blocks_update [simp]:
  "get_level p (a\<lparr>allocated_blocks := m\<rparr>) R = get_level p a R"
  by (simp add: get_level_def)

lemma get_level_free_blocks_update [simp]:
  "get_level p (a\<lparr>free_blocks := fb\<rparr>) R = get_level p a R"
  by (simp add: get_level_def)

lemma find_free_None:
  "L \<le> length fb \<Longrightarrow>
    find_free fb L k = Returned None \<longleftrightarrow> (\<forall>l. k \<le> l \<and> l < L \<longrightarrow> fb ! l = {})"
proof (induction fb L k rule: find_free.induct)
  case (1 fb L lvl)
  show ?case
  proof (cases "lvl < L")
    case False
    then show ?thesis
      by (auto simp: find_free.simps [of fb L lvl])
  next
    case True
    show ?thesis
    proof (cases "fb ! lvl = {}")
      case False
      with True "1.prems" show ?thesis
        by (auto simp: find_free.simps [of fb L lvl])
    next
      case empty: True
      with True "1.prems" have "find_free fb L lvl = find_free fb L (Suc lvl)"
        by (simp add: find_free.simps [of fb L lvl])
      moreover have "find_free fb L (Suc lvl) = Returned None \<longleftrightarrow>
          (\<forall>l. Suc lvl \<le> l \<and> l < L \<longrightarrow> fb ! l = {})"
        using "1.IH" True empty "1.prems" by simp
      moreover have "(\<forall>l. Suc lvl \<le> l \<and> l < L \<longrightarrow> fb ! l = {}) \<longleftrightarrow>
          (\<forall>l. lvl \<le> l \<and> l < L \<longrightarrow> fb ! l = {})"
        using empty by (metis Suc_leI le_neq_implies_less Suc_leD)
      ultimately show ?thesis
        by simp
    qed
  qed
qed

lemma find_free_Some:
  "L \<le> length fb \<Longrightarrow>
    find_free fb L k = Returned (Some lvl) \<longleftrightarrow>
      k \<le> lvl \<and> lvl < L \<and> fb ! lvl \<noteq> {} \<and> (\<forall>l. k \<le> l \<and> l < lvl \<longrightarrow> fb ! l = {})"
proof (induction fb L k rule: find_free.induct)
  case (1 fb L k)
  show ?case
  proof (cases "k < L")
    case False
    then show ?thesis
      by (auto simp: find_free.simps [of fb L k])
  next
    case True
    show ?thesis
    proof (cases "fb ! k = {}")
      case False
      have "k = lvl" if "k \<le> lvl" "\<forall>l. k \<le> l \<and> l < lvl \<longrightarrow> fb ! l = {}"
        using that False by (metis le_neq_implies_less order_refl)
      with False True "1.prems" show ?thesis
        by (auto simp: find_free.simps [of fb L k])
    next
      case empty: True
      with True "1.prems" have "find_free fb L k = find_free fb L (Suc k)"
        by (simp add: find_free.simps [of fb L k])
      moreover have "find_free fb L (Suc k) = Returned (Some lvl) \<longleftrightarrow>
          Suc k \<le> lvl \<and> lvl < L \<and> fb ! lvl \<noteq> {} \<and> (\<forall>l. Suc k \<le> l \<and> l < lvl \<longrightarrow> fb ! l = {})"
        using "1.IH" True empty "1.prems" by simp
      moreover have "(\<forall>l. Suc k \<le> l \<and> l < lvl \<longrightarrow> fb ! l = {}) \<longleftrightarrow>
          (\<forall>l. k \<le> l \<and> l < lvl \<longrightarrow> fb ! l = {})"
        using empty by (metis Suc_leI le_neq_implies_less Suc_leD)
      moreover have "fb ! lvl \<noteq> {} \<Longrightarrow> (Suc k \<le> lvl \<longleftrightarrow> k \<le> lvl)"
        using empty by (metis Suc_leI le_neq_implies_less Suc_leD)
      ultimately show ?thesis
        by auto
    qed
  qed
qed

lemma find_free_not_Raised:
  "L \<le> length fb \<Longrightarrow> find_free fb L k \<noteq> Raised e"
proof (induction fb L k rule: find_free.induct)
  case (1 fb L k)
  then show ?case
    by (simp add: find_free.simps [of fb L k])
qed

lemma find_free_cases:
  assumes "L \<le> length fb"
  obtains "find_free fb L k = Returned None" "\<forall>l. k \<le> l \<and> l < L \<longrightarrow> fb ! l = {}"
  | lvl where "find_free fb L k = Returned (Some lvl)" "k \<le> lvl" "lvl < L" "fb ! lvl \<noteq> {}"
      "\<forall>l. k \<le> l \<and> l < lvl \<longrightarrow> fb ! l = {}"
proof (cases "find_free fb L k")
  case (Raised e)
  with find_free_not_Raised [OF assms] show ?thesis by blast
next
  case (Returned r)
  show ?thesis
  proof (cases r)
    case None
    with Returned find_free_None [OF assms, of k] that(1) show ?thesis by simp
  next
    case (Some lvl)
    with Returned find_free_Some [OF assms, of k lvl] that(2) show ?thesis by simp
  qed
qed

lemma pop_ok_single: "pop_ok pop \<Longrightarrow> pop {x} = x"
  unfolding pop_ok_def by (metis finite.emptyI finite.insertI insert_not_empty singletonD)

lemma pop_ok_Min: "pop_ok Min"
  by (simp add: pop_ok_def)

lemma int_of_float_of_nat [simp]: "int_of_float (real k) = int k"
  by (simp add: int_of_float_def)

lemma init_power:
  assumes "platform_ok p" and "0 < S"
  shows "init p (S * 2 ^ n) S =
     Returned \<lparr>total_size = S * 2 ^ n, min_size = S, levels = Suc n,
       free_blocks = replicate n {} @ [{0}], allocated_blocks = Map.empty\<rparr>"
proof -
  have "(replicate (Suc n) ({}::int set))[n := {0}] = replicate n {} @ [{0}]"
    by (induction n) simp_all
  moreover have "int_of_float (log2_int p (2 ^ n)) + 1 = int (Suc n)"
    by (simp add: platform_ok_int [OF assms(1)])
  moreover have "\<not> int (Suc n) \<le> 0"
    by simp
  ultimately show ?thesis
    using assms(2) by (simp add: init_def Let_def del: replicate.simps of_nat_Suc)
qed

lemma init_1024_128: "platform_ok p \<Longrightarrow> init p 1024 128 = Returned fresh_1024_128"
  using init_power [of p 128 3] by (simp add: fresh_1024_128_def numeral_eq_Suc)

text \<open>Levels of the sizes that the examples use.\<close>

lemma get_level_128:
  assumes "platform_ok p" and "min_size a = 128"
  shows "get_level p a 128 = Returned 0" and "get_level p a 256 = Returned 1"
    and "get_level p a 1024 = Returned 3" and "get_level p a 0 = Returned 0"
    and "get_level p a (- 5) = Returned 0"
proof -
  from assms(2) have S: "0 < min_size a"
    by simp
  show "get_level p a 128 = Returned 0" "get_level p a 0 = Returned 0"
    "get_level p a (- 5) = Returned 0"
    using assms(1) S by (rule get_level_le; simp add: assms(2))+
  show "get_level p a 256 = Returned 1"
    using assms(1) S by (rule get_level_exact) (simp_all add: assms(2))
  show "get_level p a 1024 = Returned 3"
    using assms(1) S by (rule get_level_exact) (simp_all add: assms(2))
qed

lemma get_level_3:
  assumes "platform_ok p" and "min_size a = 3"
  shows "get_level p a 3 = Returned 0"
  using assms(1) by (rule get_level_le) (simp_all add: assms(2))

lemmas eval_simps = allocate_def deallocate_def get_level_128 get_level_3 platform_ok_ideal
  find_free.simps split.simps coalesce.simps Let_def push_bit_eq_mult

lemma allocate_None:
  assumes "get_level p a R = Returned k" and "levels a \<le> length (free_blocks a)"
    and "\<forall>l. k \<le> l \<and> l < levels a \<longrightarrow> free_blocks a ! l = {}"
  shows "allocate p pop a R = (a, Returned None)"
proof -
  from assms(2,3) have "find_free (free_blocks a) (levels a) k = Returned None"
    by (simp add: find_free_None)
  with assms(1) show ?thesis
    by (simp add: allocate_def)
qed

lemma allocate_Some:
  assumes "get_level p a R = Returned k" and "levels a \<le> length (free_blocks a)"
    and "k \<le> lvl" "lvl < levels a" "free_blocks a ! lvl \<noteq> {}"
    and "\<forall>l. k \<le> l \<and> l < lvl \<longrightarrow> free_blocks a ! l = {}"
  shows "allocate p pop a R =
    (a\<lparr>free_blocks := split (min_size a) k (pop (free_blocks a ! lvl))
          ((free_blocks a)[lvl := free_blocks a ! lvl - {pop (free_blocks a ! lvl)}]) lvl,
       allocated_blocks := (allocated_blocks a)(pop (free_blocks a ! lvl) \<mapsto> push_bit k (min_size a))\<rparr>,
     Returned (Some (pop (free_blocks a ! lvl))))"
proof -
  from assms(2-) have "find_free (free_blocks a) (levels a) k = Returned (Some lvl)"
    by (simp add: find_free_Some)
  with assms(1) show ?thesis
    by (simp add: allocate_def Let_def)
qed

lemma deallocate_not_allocated:
  "allocated_blocks a addr = None \<Longrightarrow> deallocate p a addr = (a, Returned False)"
  by (simp add: deallocate_def)

lemma deallocate_True_allocated_blocks:
  assumes "deallocate p a addr = (a', Returned True)"
  shows "allocated_blocks a' = (allocated_blocks a)(addr := None)"
  using assms
  by (auto simp: deallocate_def Let_def split: option.splits outcome.splits prod.splits if_splits)

text \<open>
  Claim C6 (error atomicity). When no free set from the target level up to the top level
  holds a block, \<^verbatim>\<open>allocate\<close> returns \<^verbatim>\<open>None\<close>, its report of exhaustion; when the
  address is not a key of the allocated map, which is the case after that address has just
  been freed, \<^verbatim>\<open>deallocate\<close> returns \<^verbatim>\<open>False\<close>, its report of an invalid address.
  In both cases the allocator returned is the allocator given, so that every free set and
  the allocated map are as before and the allocator can be used further.
\<close>

theorem error_atomicity:
  "(get_level p a R = Returned k \<longrightarrow> levels a \<le> length (free_blocks a) \<longrightarrow>
      (\<forall>l. k \<le> l \<and> l < levels a \<longrightarrow> free_blocks a ! l = {}) \<longrightarrow>
      allocate p pop a R = (a, Returned None)) \<and>
   (allocated_blocks a addr = None \<longrightarrow> deallocate p a addr = (a, Returned False)) \<and>
   (deallocate p a addr = (a', Returned True) \<longrightarrow> deallocate p a' addr = (a', Returned False))"
  by (simp add: allocate_None deallocate_not_allocated deallocate_True_allocated_blocks)

theorem error_atomicity_witness:
  "allocate ideal Min full_1024_128 128 = (full_1024_128, Returned None) \<and>
   deallocate ideal full_1024_128 5 = (full_1024_128, Returned False) \<and>
   deallocate ideal full_1024_128 0 = (fresh_1024_128, Returned True) \<and>
   deallocate ideal fresh_1024_128 0 = (fresh_1024_128, Returned False)"
proof -
  have 1: "get_level ideal full_1024_128 128 = Returned 0"
    by (simp add: full_1024_128_def eval_simps)
  have 2: "levels full_1024_128 \<le> length (free_blocks full_1024_128)"
    by (simp add: full_1024_128_def)
  have 3: "\<forall>l. 0 \<le> l \<and> l < levels full_1024_128 \<longrightarrow> free_blocks full_1024_128 ! l = {}"
    by (simp add: full_1024_128_def nth_Cons' )
  have 4: "allocated_blocks full_1024_128 5 = None"
    by (simp add: full_1024_128_def)
  have 5: "deallocate ideal full_1024_128 0 = (fresh_1024_128, Returned True)"
    by (simp add: full_1024_128_def fresh_1024_128_def eval_simps eval_nat_numeral)
  from error_atomicity [of ideal full_1024_128 128 0 Min 5 fresh_1024_128]
    error_atomicity [of ideal full_1024_128 128 0 Min 0 fresh_1024_128] 1 2 3 4 5
  show ?thesis
    by blast
qed

lemma allocate_failure_unchanged:
  assumes "\<forall>addr. snd (allocate p pop a R) \<noteq> Returned (Some addr)"
  shows "fst (allocate p pop a R) = a"
  using assms by (simp add: allocate_def Let_def split: outcome.splits option.splits)

lemma allocate_small_eq:
  assumes "platform_ok p" and "0 < min_size a" and "R \<le> min_size a"
  shows "allocate p pop a R = allocate p pop a (min_size a)"
  using assms by (simp add: allocate_def get_level_le)

lemma allocate_small_not_Raised:
  assumes "platform_ok p" and "0 < min_size a" and "R \<le> min_size a"
    and "levels a \<le> length (free_blocks a)"
  shows "snd (allocate p pop a R) \<noteq> Raised e"
proof -
  from assms(1,2,3) have k: "get_level p a R = Returned 0"
    by (rule get_level_le)
  from assms(4) show ?thesis
  proof (cases rule: find_free_cases [where k = 0])
    case 1
    from allocate_None [OF k assms(4) 1(2)] show ?thesis
      by simp
  next
    case (2 lvl)
    from allocate_Some [OF k assms(4) 2(2-)] show ?thesis
      by simp
  qed
qed

text \<open>
  Claim C10 (small and non-positive requests). With \<^verbatim>\<open>math.log2\<close> exact on the powers
  of two (here: on 1), on an allocator with a positive minimum block size, every request
  of at most that size, so every request that is zero or negative, is given level 0, the
  level of the minimum block. Hence, whenever some free set holds a block, \<^verbatim>\<open>allocate\<close>
  of such a request returns an address and records a block of the minimum size there; it
  does not fail.
\<close>

theorem small_request_level_zero:
  assumes "platform_ok p" and "0 < min_size a" and "R \<le> min_size a"
  shows "get_level p a R = Returned 0 \<and>
    (levels a \<le> length (free_blocks a) \<longrightarrow> (\<exists>l<levels a. free_blocks a ! l \<noteq> {}) \<longrightarrow>
       (\<exists>a' addr. allocate p pop a R = (a', Returned (Some addr)) \<and>
          allocated_blocks a' addr = Some (min_size a)))"
proof (intro conjI impI)
  show 0: "get_level p a R = Returned 0"
    using assms by (rule get_level_le)
  assume len: "levels a \<le> length (free_blocks a)" and ex: "\<exists>l<levels a. free_blocks a ! l \<noteq> {}"
  from len show "\<exists>a' addr. allocate p pop a R = (a', Returned (Some addr)) \<and>
      allocated_blocks a' addr = Some (min_size a)"
  proof (cases rule: find_free_cases [where k = 0])
    case 1
    with ex show ?thesis
      by blast
  next
    case (2 lvl)
    from allocate_Some [OF 0 len 2(2-)] show ?thesis
      by simp
  qed
qed

theorem small_request_level_zero_witness:
  "get_level ideal fresh_1024_128 (- 5) = Returned 0 \<and>
   (\<exists>a' addr. allocate ideal Min fresh_1024_128 (- 5) = (a', Returned (Some addr)) \<and>
      allocated_blocks a' addr = Some 128)"
proof -
  have 1: "0 < min_size fresh_1024_128" "- 5 \<le> min_size fresh_1024_128"
    "levels fresh_1024_128 \<le> length (free_blocks fresh_1024_128)"
    by (simp_all add: fresh_1024_128_def)
  have "3 < levels fresh_1024_128 \<and> free_blocks fresh_1024_128 ! 3 \<noteq> {}"
    by (simp add: fresh_1024_128_def)
  then have 2: "\<exists>l<levels fresh_1024_128. free_blocks fresh_1024_128 ! l \<noteq> {}"
    by blast
  have 3: "min_size fresh_1024_128 = 128"
    by (simp add: fresh_1024_128_def)
  from small_request_level_zero [OF platform_ok_ideal 1(1,2), of Min] 1(3) 2 show ?thesis
    unfolding 3 by blast
qed

text \<open>
  Claim C3 (rejection of non-positive sizes), as the specification states it, does not hold:
  on the fresh allocator of 1024 over 128 the request of size 0 returns address 0 and
  changes the free sets and the allocated map.
\<close>

theorem nonpositive_request_counterexample:
  "allocate ideal Min fresh_1024_128 0 = (after_zero_request, Returned (Some 0)) \<and>
   after_zero_request \<noteq> fresh_1024_128"
proof -
  have "allocate ideal Min fresh_1024_128 0 = (after_zero_request, Returned (Some 0))"
    by (simp add: fresh_1024_128_def after_zero_request_def eval_simps eval_nat_numeral)
  moreover have "free_blocks after_zero_request \<noteq> free_blocks fresh_1024_128"
    by (simp add: fresh_1024_128_def after_zero_request_def)
  ultimately show ?thesis
    by auto
qed

text \<open>
  Claim C3 as amended. \<^verbatim>\<open>allocate\<close> has no rejection of non-positive sizes. With
  \<^verbatim>\<open>math.log2\<close> exact on the powers of two, on an allocator with a positive minimum block
  size: a request of at most the minimum block size, positive or not, gets level 0, is
  served exactly as a request of the minimum block size, and raises no exception; a
  request of the minimum block size times \<open>2 ^ k\<close>, for \<open>k\<close> up to 1023, gets level \<open>k\<close>.
  Whenever \<^verbatim>\<open>allocate\<close> returns no address, be it that it returns \<^verbatim>\<open>None\<close> or that it
  raises an exception of the level computation, the allocator is as it was.
\<close>

theorem allocate_size_handling:
  assumes "platform_ok p" and "0 < min_size a" and "levels a \<le> length (free_blocks a)"
  shows "(R \<le> min_size a \<longrightarrow>
       get_level p a R = Returned 0 \<and>
       allocate p pop a R = allocate p pop a (min_size a) \<and>
       (\<forall>e. snd (allocate p pop a R) \<noteq> Raised e)) \<and>
    (k \<le> 1023 \<longrightarrow> get_level p a (min_size a * 2 ^ k) = Returned k) \<and>
    ((\<forall>addr. snd (allocate p pop a R) \<noteq> Returned (Some addr)) \<longrightarrow> fst (allocate p pop a R) = a)"
proof (intro conjI impI allI)
  show "get_level p a R = Returned 0" if "R \<le> min_size a"
    using assms(1,2) that by (rule get_level_le)
  show "allocate p pop a R = allocate p pop a (min_size a)" if "R \<le> min_size a"
    using assms(1,2) that by (rule allocate_small_eq)
  show "snd (allocate p pop a R) \<noteq> Raised e" if "R \<le> min_size a" for e
    using assms(1,2) that assms(3) by (rule allocate_small_not_Raised)
  show "get_level p a (min_size a * 2 ^ k) = Returned k" if "k \<le> 1023"
    using assms(1,2) refl that by (rule get_level_exact)
  show "fst (allocate p pop a R) = a" if "\<forall>addr. snd (allocate p pop a R) \<noteq> Returned (Some addr)"
    using that by (rule allocate_failure_unchanged)
qed

theorem allocate_size_handling_witness:
  "get_level ideal fresh_1024_128 (- 5) = Returned 0 \<and>
   allocate ideal Min fresh_1024_128 (- 5) = allocate ideal Min fresh_1024_128 128 \<and>
   snd (allocate ideal Min fresh_1024_128 (- 5)) = Returned (Some 0) \<and>
   get_level ideal fresh_1024_128 (128 * 2 ^ 1) = Returned 1 \<and>
   fst (allocate ideal Min full_1024_128 (- 5)) = full_1024_128"
proof -
  have 1: "0 < min_size fresh_1024_128" "levels fresh_1024_128 \<le> length (free_blocks fresh_1024_128)"
    "- 5 \<le> min_size fresh_1024_128"
    by (simp_all add: fresh_1024_128_def)
  have 2: "0 < min_size full_1024_128" "levels full_1024_128 \<le> length (free_blocks full_1024_128)"
    by (simp_all add: full_1024_128_def)
  have 3: "\<forall>addr. snd (allocate ideal Min full_1024_128 (- 5)) \<noteq> Returned (Some addr)"
    by (simp add: full_1024_128_def eval_simps eval_nat_numeral)
  have 5: "snd (allocate ideal Min fresh_1024_128 128) = Returned (Some 0)"
    by (simp add: fresh_1024_128_def eval_simps eval_nat_numeral)
  have 6: "min_size fresh_1024_128 = 128" and 7: "(1::nat) \<le> 1023"
    by (simp_all add: fresh_1024_128_def)
  from allocate_size_handling [OF platform_ok_ideal 1(1,2), of "- 5" Min 1]
    allocate_size_handling [OF platform_ok_ideal 2, of "- 5" Min 1] 1(3) 3 5 7
  show ?thesis
    unfolding 6 by simp
qed

lemma log2_power_ceiling: "\<lceil>log 2 (2 ^ n)\<rceil> = int n"
  by simp

lemma div_nonpositive_iff:
  fixes T S :: int
  assumes "S \<noteq> 0"
  shows "T div S \<le> 0 \<longleftrightarrow> \<not> ((0 < S \<and> S \<le> T) \<or> (S < 0 \<and> T \<le> S))"
proof -
  have pos: "0 < T div S \<longleftrightarrow> S \<le> T" if "0 < S"
    using that by (rule pos_imp_zdiv_pos_iff)
  have neg: "0 < T div S \<longleftrightarrow> T \<le> S" if "S < 0"
  proof -
    have "T div S = (- T) div (- S)"
      by simp
    moreover have "0 < (- T) div (- S) \<longleftrightarrow> - S \<le> - T"
      using that by (intro pos_imp_zdiv_pos_iff) simp
    ultimately show ?thesis
      by simp
  qed
  from assms consider "0 < S" | "S < 0"
    by linarith
  then show ?thesis
  proof cases
    case 1
    with pos show ?thesis by (auto simp: not_le)
  next
    case 2
    with neg show ?thesis by (auto simp: not_le)
  qed
qed

lemma init_Returned_fields:
  assumes "init p T S = Returned a"
  shows "S \<noteq> 0" "0 < T div S"
    "total_size a = T" "min_size a = S"
    "int (levels a) = int_of_float (log2_int p (T div S)) + 1"
    "0 < levels a"
    "length (free_blocks a) = levels a"
    "\<forall>l<levels a. free_blocks a ! l = (if l = levels a - 1 then {0} else {})"
    "allocated_blocks a = Map.empty"
proof -
  define L where "L = int_of_float (log2_int p (T div S)) + 1"
  from assms show S: "S \<noteq> 0"
    by (auto simp: init_def split: if_splits)
  from assms S show q: "0 < T div S"
    by (auto simp: init_def split: if_splits)
  from assms S q have L: "0 < L" and
    a: "a = \<lparr>total_size = T, min_size = S, levels = nat L,
           free_blocks = (replicate (nat L) {})[nat L - 1 := {0}], allocated_blocks = Map.empty\<rparr>"
    unfolding L_def init_def Let_def by (simp_all split: if_splits)
  from a show "total_size a = T" "min_size a = S" "allocated_blocks a = Map.empty"
    by simp_all
  from a have fb: "free_blocks a = (replicate (nat L) {})[nat L - 1 := {0}]"
    and lev: "levels a = nat L"
    by simp_all
  show "length (free_blocks a) = levels a"
    unfolding fb lev by simp
  from L show "0 < levels a"
    unfolding lev by simp
  from L show "int (levels a) = int_of_float (log2_int p (T div S)) + 1"
    unfolding lev L_def by simp
  show "\<forall>l<levels a. free_blocks a ! l = (if l = levels a - 1 then {0} else {})"
    unfolding fb lev by (simp add: nth_list_update)
qed

lemma init_negative_power:
  assumes "platform_ok p" and "S < 0"
  shows "\<exists>a. init p (S * 2 ^ n) S = Returned a \<and> levels a = n + 1"
proof -
  have "int_of_float (log2_int p (2 ^ n)) + 1 = int (Suc n)"
    by (simp add: platform_ok_int [OF assms(1)])
  moreover have "\<not> int (Suc n) \<le> 0"
    by simp
  ultimately show ?thesis
    using assms(2) by (simp add: init_def Let_def del: replicate.simps of_nat_Suc)
qed

text \<open>
  Claim C4 (constructor validation), as the specification states it, does not hold. 1000 lies
  strictly between \<open>64 * 2 ^ 3\<close> and \<open>64 * 2 ^ 4\<close>, so it is not 64 times a power of two,
  and yet the constructor returns an allocator of four levels for 1000 over 64 (the
  logarithm of 15 lies between 3 and 4); and for the two negative sizes -4096 over -64 it
  returns an allocator of seven levels.
\<close>

theorem init_not_validating_counterexample:
  "64 * 2 ^ 3 < (1000::int) \<and> (1000::int) < 64 * 2 ^ 4 \<and>
   init ideal 1000 64 =
     Returned \<lparr>total_size = 1000, min_size = 64, levels = 4,
       free_blocks = [{}, {}, {}, {0}], allocated_blocks = Map.empty\<rparr> \<and>
   init ideal (- 4096) (- 64) =
     Returned \<lparr>total_size = - 4096, min_size = - 64, levels = 7,
       free_blocks = [{}, {}, {}, {}, {}, {}, {0}], allocated_blocks = Map.empty\<rparr>"
proof -
  have "\<lfloor>log 2 (real 15)\<rfloor> = int 3"
    using floor_log_nat_eq_powr_iff [of 2 15 3] by simp
  then have 15: "int_of_float (log2_int ideal 15) = 3"
    by (simp add: ideal_def int_of_float_def)
  have "log 2 (real 64) = real 6"
    using log2_of_power_eq [of 64 6] by simp
  then have 64: "int_of_float (log2_int ideal 64) = 6"
    by (simp add: ideal_def int_of_float_def)
  have q: "(1000::int) div 64 = 15" "(- 4096::int) div (- 64) = 64"
    by simp_all
  have s: "(3::int) + 1 = 4" "(6::int) + 1 = 7"
    by simp_all
  have r: "(replicate 4 ({}::int set))[3 := {0}] = [{}, {}, {}, {0}]"
    "(replicate 7 ({}::int set))[6 := {0}] = [{}, {}, {}, {}, {}, {}, {0}]"
    by (simp_all add: eval_nat_numeral)
  have "init ideal 1000 64 =
     Returned \<lparr>total_size = 1000, min_size = 64, levels = 4,
       free_blocks = [{}, {}, {}, {0}], allocated_blocks = Map.empty\<rparr>"
    unfolding init_def Let_def q 15 s by (simp add: r)
  moreover have "init ideal (- 4096) (- 64) =
     Returned \<lparr>total_size = - 4096, min_size = - 64, levels = 7,
       free_blocks = [{}, {}, {}, {}, {}, {}, {0}], allocated_blocks = Map.empty\<rparr>"
    unfolding init_def Let_def q 64 s by (simp add: r)
  ultimately show ?thesis
    by simp
qed

text \<open>
  Claim C4 as amended. The constructor validates nothing itself and knows no error of
  configuration. It raises \<^verbatim>\<open>ZeroDivisionError\<close> when the minimum block size is 0, and
  \<^verbatim>\<open>ValueError\<close> when it is not 0 and the floor quotient of the total size by it is not
  positive, which is the case exactly when neither \<open>0 < min \<le> total\<close> nor
  \<open>total \<le> min < 0\<close> (so when the minimum block size exceeds a positive total, and when
  just one of the two is positive); no allocator is produced then. An allocator that it
  returns has as many levels as \<^verbatim>\<open>int(math.log2(total // min)) + 1\<close> computes, one list
  entry per level, the single free block 0 at the top level and nothing allocated. With
  \<^verbatim>\<open>math.log2\<close> exact on the powers of two, for \<open>total = min * 2 ^ n\<close> it returns an
  allocator of \<open>n + 1\<close> levels, for a positive minimum block size, where this is
  \<open>\<lceil>log\<^sub>2 (total / min)\<rceil> + 1\<close>, and for a negative one as well.
\<close>

theorem init_behaviour:
  "(S = 0 \<longrightarrow> init p T S = Raised ZeroDivisionError) \<and>
   (S \<noteq> 0 \<longrightarrow> T div S \<le> 0 \<longrightarrow> init p T S = Raised ValueError) \<and>
   (S \<noteq> 0 \<longrightarrow> (T div S \<le> 0 \<longleftrightarrow> \<not> ((0 < S \<and> S \<le> T) \<or> (S < 0 \<and> T \<le> S)))) \<and>
   (\<forall>a. init p T S = Returned a \<longrightarrow>
      S \<noteq> 0 \<and> 0 < T div S \<and> total_size a = T \<and> min_size a = S \<and>
      int (levels a) = int_of_float (log2_int p (T div S)) + 1 \<and>
      0 < levels a \<and> length (free_blocks a) = levels a \<and>
      (\<forall>l<levels a. free_blocks a ! l = (if l = levels a - 1 then {0} else {})) \<and>
      allocated_blocks a = Map.empty) \<and>
   (platform_ok p \<longrightarrow> 0 < S \<longrightarrow> T = S * 2 ^ n \<longrightarrow>
      (\<exists>a. init p T S = Returned a \<and> levels a = n + 1 \<and>
         int (levels a) = \<lceil>log 2 (real_of_int T / real_of_int S)\<rceil> + 1)) \<and>
   (platform_ok p \<longrightarrow> S < 0 \<longrightarrow> T = S * 2 ^ n \<longrightarrow>
      (\<exists>a. init p T S = Returned a \<and> levels a = n + 1))"
proof -
  have 1: "init p T S = Raised ZeroDivisionError" if "S = 0"
    using that by (simp add: init_def)
  have 2: "init p T S = Raised ValueError" if "S \<noteq> 0" "T div S \<le> 0"
    using that by (simp add: init_def)
  have 3: "T div S \<le> 0 \<longleftrightarrow> \<not> ((0 < S \<and> S \<le> T) \<or> (S < 0 \<and> T \<le> S))" if "S \<noteq> 0"
    using that by (rule div_nonpositive_iff)
  have 4: "\<forall>a. init p T S = Returned a \<longrightarrow>
      S \<noteq> 0 \<and> 0 < T div S \<and> total_size a = T \<and> min_size a = S \<and>
      int (levels a) = int_of_float (log2_int p (T div S)) + 1 \<and>
      0 < levels a \<and> length (free_blocks a) = levels a \<and>
      (\<forall>l<levels a. free_blocks a ! l = (if l = levels a - 1 then {0} else {})) \<and>
      allocated_blocks a = Map.empty"
  proof (intro allI impI)
    fix a
    assume "init p T S = Returned a"
    from init_Returned_fields [OF this]
    show "S \<noteq> 0 \<and> 0 < T div S \<and> total_size a = T \<and> min_size a = S \<and>
      int (levels a) = int_of_float (log2_int p (T div S)) + 1 \<and>
      0 < levels a \<and> length (free_blocks a) = levels a \<and>
      (\<forall>l<levels a. free_blocks a ! l = (if l = levels a - 1 then {0} else {})) \<and>
      allocated_blocks a = Map.empty"
      by (intro conjI)
  qed
  have 5: "\<exists>a. init p T S = Returned a \<and> levels a = n + 1 \<and>
      int (levels a) = \<lceil>log 2 (real_of_int T / real_of_int S)\<rceil> + 1"
    if ok: "platform_ok p" and S: "0 < S" and T: "T = S * 2 ^ n"
  proof -
    have "real_of_int T / real_of_int S = 2 ^ n"
      using S by (simp add: T)
    then have "\<lceil>log 2 (real_of_int T / real_of_int S)\<rceil> = int n"
      by (simp only: log2_power_ceiling)
    then show ?thesis
      using init_power [OF ok S, of n] by (simp add: T)
  qed
  have 6: "\<exists>a. init p T S = Returned a \<and> levels a = n + 1"
    if "platform_ok p" and "S < 0" and "T = S * 2 ^ n"
    using init_negative_power [OF that(1,2), of n] by (simp add: that(3))
  from 1 2 3 4 5 6 show ?thesis
    by (intro conjI impI)
qed

theorem init_behaviour_witness:
  "init ideal 0 0 = Raised ZeroDivisionError \<and>
   init ideal 64 128 = Raised ValueError \<and>
   init ideal 1024 128 = Returned fresh_1024_128 \<and> levels fresh_1024_128 = 4 \<and>
   length (free_blocks fresh_1024_128) = 4 \<and>
   int (levels fresh_1024_128) = \<lceil>log 2 (real_of_int 1024 / real_of_int 128)\<rceil> + 1"
proof -
  have 1: "(0::int) < 128" "(1024::int) = 128 * 2 ^ 3" "(128::int) \<noteq> 0" "(64::int) div 128 \<le> 0"
    by simp_all
  have 2: "levels fresh_1024_128 = 4" "length (free_blocks fresh_1024_128) = 4"
    by (simp_all add: fresh_1024_128_def)
  note fresh = init_1024_128 [OF platform_ok_ideal]
  note power = init_behaviour [of 128 ideal 1024 3, THEN conjunct2, THEN conjunct2,
    THEN conjunct2, THEN conjunct2, THEN conjunct1, rule_format, OF platform_ok_ideal 1(1,2)]
  note zero = init_behaviour [of 0 ideal 0 0, THEN conjunct1, rule_format, OF refl]
  note small = init_behaviour [of 128 ideal 64 0, THEN conjunct2, THEN conjunct1, rule_format,
    OF 1(3,4)]
  from power have "int (levels fresh_1024_128) = \<lceil>log 2 (real_of_int 1024 / real_of_int 128)\<rceil> + 1"
    unfolding fresh by blast
  with zero small fresh 2 show ?thesis
    by (intro conjI)
qed

lemmas scenario_defs = fresh_1024_128_def scenario_1_def scenario_2_def scenario_3_def
  scenario_4_def scenario_5_def

lemma scenario_step_1:
  "platform_ok p \<Longrightarrow> pop_ok pop \<Longrightarrow> allocate p pop fresh_1024_128 128 = (scenario_1, Returned (Some 0))"
  by (simp add: scenario_defs eval_simps pop_ok_single eval_nat_numeral)

lemma scenario_step_2:
  "platform_ok p \<Longrightarrow> pop_ok pop \<Longrightarrow> allocate p pop scenario_1 128 = (scenario_2, Returned (Some 128))"
  by (simp add: scenario_defs eval_simps pop_ok_single eval_nat_numeral)

lemma scenario_step_3:
  "platform_ok p \<Longrightarrow> pop_ok pop \<Longrightarrow> allocate p pop scenario_2 256 = (scenario_3, Returned (Some 256))"
  by (simp add: scenario_defs eval_simps pop_ok_single eval_nat_numeral)

lemma scenario_step_4:
  "platform_ok p \<Longrightarrow> deallocate p scenario_3 0 = (scenario_4, Returned True)"
  by (simp add: scenario_defs eval_simps eval_nat_numeral fun_upd_twist)

lemma scenario_step_5:
  "platform_ok p \<Longrightarrow> deallocate p scenario_4 128 = (scenario_5, Returned True)"
  by (simp add: scenario_defs eval_simps eval_nat_numeral fun_upd_twist)

text \<open>
  Claim C9 (coalescing scenario). With \<^verbatim>\<open>math.log2\<close> exact on the powers of two, on
  the fresh allocator of 1024 over 128, whatever member \<^verbatim>\<open>pop()\<close> picks, the calls
  allocate(128), allocate(128), allocate(256) return 0, 128 and 256, and deallocate(0),
  deallocate(128) then leave the free sets with the block 0 at level 1 (size 256) and the
  block 512 at level 2 (size 512) and nothing else, and the allocated map with the one
  entry of 256.
\<close>

theorem coalescing_scenario:
  assumes "platform_ok p" and "pop_ok pop"
  shows "\<exists>a0 a1 a2 a3 a4 a5.
    init p 1024 128 = Returned a0 \<and>
    allocate p pop a0 128 = (a1, Returned (Some 0)) \<and>
    allocate p pop a1 128 = (a2, Returned (Some 128)) \<and>
    allocate p pop a2 256 = (a3, Returned (Some 256)) \<and>
    deallocate p a3 0 = (a4, Returned True) \<and>
    deallocate p a4 128 = (a5, Returned True) \<and>
    free_blocks a5 = [{}, {0}, {512}, {}] \<and>
    allocated_blocks a5 = [256 \<mapsto> 256] \<and> dom (allocated_blocks a5) = {256}"
proof -
  have "free_blocks scenario_5 = [{}, {0}, {512}, {}]"
    "allocated_blocks scenario_5 = [256 \<mapsto> 256]" "dom (allocated_blocks scenario_5) = {256}"
    by (simp_all add: scenario_5_def)
  with init_1024_128 [OF assms(1)] scenario_step_1 [OF assms] scenario_step_2 [OF assms]
    scenario_step_3 [OF assms] scenario_step_4 [OF assms(1)] scenario_step_5 [OF assms(1)]
  show ?thesis
    by blast
qed

theorem coalescing_scenario_witness:
  "\<exists>a0 a1 a2 a3 a4 a5.
    init ideal 1024 128 = Returned a0 \<and>
    allocate ideal Min a0 128 = (a1, Returned (Some 0)) \<and>
    allocate ideal Min a1 128 = (a2, Returned (Some 128)) \<and>
    allocate ideal Min a2 256 = (a3, Returned (Some 256)) \<and>
    deallocate ideal a3 0 = (a4, Returned True) \<and>
    deallocate ideal a4 128 = (a5, Returned True) \<and>
    free_blocks a5 = [{}, {0}, {512}, {}] \<and>
    allocated_blocks a5 = [256 \<mapsto> 256] \<and> dom (allocated_blocks a5) = {256}"
  using platform_ok_ideal pop_ok_Min by (rule coalescing_scenario)

lemma coalesce_refines:
  assumes "coalesce S L fb cur lvl = (fb', Returned (c, l))" and "l < length fb'"
  shows "coalesce_spec S L fb cur lvl = fb'[l := insert c (fb' ! l)]"
  using assms
proof (induction S L fb cur lvl rule: coalesce.induct)
  case (1 S L fb cur lvl)
  let ?buddy = "cur XOR push_bit lvl S"
  have cond: "int lvl < int L - 1 \<longleftrightarrow> Suc lvl < L"
    by linarith
  show ?case
  proof (cases "Suc lvl < L")
    case False
    then have "coalesce_spec S L fb cur lvl = fb[lvl := insert cur (fb ! lvl)]"
      by (simp add: coalesce_spec.simps [of S L fb cur lvl] Let_def)
    moreover from "1.prems"(1) False cond have "fb' = fb \<and> c = cur \<and> l = lvl"
      by (simp add: coalesce.simps [of S L fb cur lvl])
    ultimately show ?thesis
      by simp
  next
    case True
    with "1.prems"(1) cond have len: "lvl < length fb"
      by (simp add: coalesce.simps [of S L fb cur lvl] Let_def split: if_splits)
    show ?thesis
    proof (cases "?buddy \<in> fb ! lvl")
      case False
      then have "coalesce_spec S L fb cur lvl = fb[lvl := insert cur (fb ! lvl)]"
        by (simp add: coalesce_spec.simps [of S L fb cur lvl] Let_def push_bit_eq_mult)
      moreover from "1.prems"(1) False True cond len have "fb' = fb \<and> c = cur \<and> l = lvl"
        by (simp add: coalesce.simps [of S L fb cur lvl] Let_def)
      ultimately show ?thesis
        by simp
    next
      case in_fb: True
      let ?fb = "fb[lvl := fb ! lvl - {?buddy}]"
      from "1.prems"(1) True cond len in_fb
      have rec: "coalesce S L ?fb (min cur ?buddy) (Suc lvl) = (fb', Returned (c, l))"
        by (simp add: coalesce.simps [of S L fb cur lvl] Let_def)
      have "coalesce_spec S L ?fb (min cur ?buddy) (Suc lvl) = fb'[l := insert c (fb' ! l)]"
        using "1.IH" [OF _ refl _ in_fb rec "1.prems"(2)] True cond len by simp
      with True in_fb show ?thesis
        by (simp add: coalesce_spec.simps [of S L fb cur lvl] Let_def push_bit_eq_mult)
    qed
  qed
qed

text \<open>
  Claim C5 (deallocation coalescing). When \<^verbatim>\<open>deallocate\<close> succeeds on an address whose
  recorded size has level \<open>k\<close>, the free sets it leaves are those of the loop of the
  specification started at that address and level, the entry of the address is gone from
  the allocated map, and nothing else of the allocator has changed.
\<close>

theorem deallocate_coalescing:
  assumes "allocated_blocks a addr = Some sz" and "get_level p a sz = Returned k"
    and "deallocate p a addr = (a', Returned True)"
  shows "free_blocks a' = coalesce_spec (min_size a) (levels a) (free_blocks a) addr k \<and>
    allocated_blocks a' = (allocated_blocks a)(addr := None) \<and>
    levels a' = levels a \<and> min_size a' = min_size a \<and> total_size a' = total_size a"
proof -
  obtain fb r where co: "coalesce (min_size a) (levels a) (free_blocks a) addr k = (fb, r)"
    by (cases "coalesce (min_size a) (levels a) (free_blocks a) addr k")
  from assms co obtain c l where r: "r = Returned (c, l)" and l: "l < length fb"
    and a': "a' = a\<lparr>allocated_blocks := (allocated_blocks a)(addr := None),
                    free_blocks := fb[l := insert c (fb ! l)]\<rparr>"
    by (auto simp: deallocate_def Let_def split: outcome.splits if_splits)
  from coalesce_refines [OF co [unfolded r] l] a' show ?thesis
    by simp
qed

theorem deallocate_coalescing_witness:
  "coalesce_spec 128 4 [{0}, {}, {512}, {}] 128 0 = [{}, {0}, {512}, {}]"
proof -
  have 1: "allocated_blocks scenario_4 128 = Some 128"
    by (simp add: scenario_4_def)
  have 2: "get_level ideal scenario_4 128 = Returned 0"
    by (simp add: scenario_4_def eval_simps)
  from deallocate_coalescing [OF 1 2 scenario_step_5 [OF platform_ok_ideal]] show ?thesis
    by (simp add: scenario_4_def scenario_5_def)
qed

subsection \<open>Tilings\<close>

lemma region_triple [simp]: "region (st, x, sz) = {x ..< x + sz}"
  by (simp add: region_def address_def block_size_def)

lemma block_size_triple [simp]: "block_size (st, x, sz) = sz"
  by (simp add: block_size_def)

lemma address_triple [simp]: "address (st, x, sz) = x"
  by (simp add: address_def)

lemma tiling_remove:
  assumes "tiling B H T" and "b \<in> B"
  shows "tiling (B - {b}) (H \<union> region b) T"
proof -
  from assms have pos: "\<forall>c\<in>B. 0 < block_size c"
    and dis: "\<forall>c\<in>B. \<forall>d\<in>B. c \<noteq> d \<longrightarrow> region c \<inter> region d = {}"
    and hand: "\<forall>c\<in>B. region c \<inter> H = {}"
    and cover: "(\<Union>c\<in>B. region c) \<union> H = {0..<T}"
    by (simp_all add: tiling_def)
  have "(\<Union>c\<in>B - {b}. region c) \<union> (H \<union> region b) = (\<Union>c\<in>B. region c) \<union> H"
    using assms(2) by blast
  with cover have "(\<Union>c\<in>B - {b}. region c) \<union> (H \<union> region b) = {0..<T}"
    by simp
  moreover have "\<forall>c\<in>B - {b}. region c \<inter> (H \<union> region b) = {}"
    using dis hand assms(2) by blast
  ultimately show ?thesis
    using pos dis by (simp add: tiling_def)
qed

lemma tiling_insert:
  assumes "tiling B H T" and "region b \<subseteq> H" and "0 < block_size b"
  shows "tiling (insert b B) (H - region b) T"
proof -
  from assms have pos: "\<forall>c\<in>B. 0 < block_size c"
    and dis: "\<forall>c\<in>B. \<forall>d\<in>B. c \<noteq> d \<longrightarrow> region c \<inter> region d = {}"
    and hand: "\<forall>c\<in>B. region c \<inter> H = {}"
    and cover: "(\<Union>c\<in>B. region c) \<union> H = {0..<T}"
    by (simp_all add: tiling_def)
  have "(\<Union>c\<in>insert b B. region c) \<union> (H - region b) = (\<Union>c\<in>B. region c) \<union> H"
    using assms(2) by blast
  with cover have "(\<Union>c\<in>insert b B. region c) \<union> (H - region b) = {0..<T}"
    by simp
  moreover have "\<forall>c\<in>insert b B. region c \<inter> (H - region b) = {}"
    using hand by blast
  moreover have "\<forall>c\<in>insert b B. \<forall>d\<in>insert b B. c \<noteq> d \<longrightarrow> region c \<inter> region d = {}"
    using dis hand assms(2) by blast
  ultimately show ?thesis
    using pos assms(3) by (simp add: tiling_def)
qed

lemma tiling_not_member:
  assumes "tiling B H T" and "region b \<subseteq> H" and "0 < block_size b"
  shows "b \<notin> B"
proof
  assume "b \<in> B"
  with assms(1) have "region b \<inter> H = {}"
    by (simp add: tiling_def)
  with assms(2) have "region b = {}"
    by blast
  with assms(3) show False
    by (simp add: region_def)
qed

subsection \<open>The blocks of an updated allocator\<close>

lemma push_bit_inj_level:
  fixes S :: int
  assumes "S \<noteq> 0" and "push_bit l S = push_bit l' S"
  shows "l = l'"
proof -
  from assms have "(2::int) ^ l = 2 ^ l'"
    by (simp add: push_bit_eq_mult)
  then show ?thesis
    by simp
qed

lemma blocks_free_insert:
  assumes "length (free_blocks a) = levels a" and "l < levels a"
  shows "blocks (a\<lparr>free_blocks := (free_blocks a)[l := insert x (free_blocks a ! l)]\<rparr>) =
    insert (Free, x, push_bit l (min_size a)) (blocks a)"
  using assms by (auto simp: blocks_def nth_list_update split: if_splits)

lemma blocks_free_remove:
  assumes "length (free_blocks a) = levels a" and "l < levels a" and "min_size a \<noteq> 0"
  shows "blocks (a\<lparr>free_blocks := (free_blocks a)[l := free_blocks a ! l - {x}]\<rparr>) =
    blocks a - {(Free, x, push_bit l (min_size a))}"
  using assms
  by (auto simp: blocks_def nth_list_update split: if_splits dest: push_bit_inj_level)

lemma blocks_allocated_insert:
  assumes "allocated_blocks a x = None"
  shows "blocks (a\<lparr>allocated_blocks := (allocated_blocks a)(x \<mapsto> sz)\<rparr>) =
    insert (Allocated, x, sz) (blocks a)"
  using assms by (auto simp: blocks_def split: if_splits)

lemma blocks_allocated_remove:
  assumes "allocated_blocks a x = Some sz"
  shows "blocks (a\<lparr>allocated_blocks := (allocated_blocks a)(x := None)\<rparr>) =
    blocks a - {(Allocated, x, sz)}"
proof -
  have "{(Allocated, y, s) | y s. ((allocated_blocks a)(x := None)) y = Some s} =
      {(Allocated, y, s) | y s. allocated_blocks a y = Some s} - {(Allocated, x, sz)}"
  proof (intro set_eqI iffI)
    fix p assume "p \<in> {(Allocated, y, s) | y s. ((allocated_blocks a)(x := None)) y = Some s}"
    then obtain y s where p: "p = (Allocated, y, s)" and "((allocated_blocks a)(x := None)) y = Some s"
      by blast
    then have "y \<noteq> x" and "allocated_blocks a y = Some s"
      by (simp_all split: if_splits)
    with p show "p \<in> {(Allocated, y, s) | y s. allocated_blocks a y = Some s} - {(Allocated, x, sz)}"
      by simp
  next
    fix p assume "p \<in> {(Allocated, y, s) | y s. allocated_blocks a y = Some s} - {(Allocated, x, sz)}"
    then obtain y s where p: "p = (Allocated, y, s)" and ys: "allocated_blocks a y = Some s"
      and ne: "(y, s) \<noteq> (x, sz)"
      by blast
    from ys ne assms have "y \<noteq> x"
      by auto
    with p ys show "p \<in> {(Allocated, y, s) | y s. ((allocated_blocks a)(x := None)) y = Some s}"
      by simp
  qed
  then show ?thesis
    by (auto simp: blocks_def)
qed

subsection \<open>Single steps that keep the invariants\<close>

lemma push_bit_pos:
  fixes S :: int
  shows "0 < S \<Longrightarrow> 0 < push_bit l S"
  by (simp add: push_bit_eq_mult)

lemma holding_free_insert:
  assumes h: "holding a H" and l: "l < levels a"
    and sub: "{x ..< x + push_bit l (min_size a)} \<subseteq> H"
    and dv: "push_bit l (min_size a) dvd x"
  shows "holding (a\<lparr>free_blocks := (free_blocks a)[l := insert x (free_blocks a ! l)]\<rparr>)
    (H - {x ..< x + push_bit l (min_size a)})"
proof -
  let ?a = "a\<lparr>free_blocks := (free_blocks a)[l := insert x (free_blocks a ! l)]\<rparr>"
  let ?b = "(Free, x, push_bit l (min_size a))"
  from h have wf: "well_formed a" and al: "aligned a" and ti: "tiling (blocks a) H (total_size a)"
    by (simp_all add: holding_def)
  from wf have len: "length (free_blocks a) = levels a" and S: "0 < min_size a"
    by (simp_all add: well_formed_def)
  have "well_formed ?a"
    using wf l by (auto simp: well_formed_def nth_list_update)
  moreover have "aligned ?a"
    using al l dv len by (auto simp: aligned_def nth_list_update)
  moreover have "tiling (insert ?b (blocks a)) (H - region ?b) (total_size a)"
    using ti by (rule tiling_insert) (use sub S in \<open>simp_all add: push_bit_pos\<close>)
  then have "tiling (blocks ?a) (H - {x ..< x + push_bit l (min_size a)}) (total_size ?a)"
    by (simp add: blocks_free_insert [OF len l])
  ultimately show ?thesis
    by (simp add: holding_def)
qed

lemma holding_free_remove:
  assumes h: "holding a H" and l: "l < levels a" and x: "x \<in> free_blocks a ! l"
  shows "holding (a\<lparr>free_blocks := (free_blocks a)[l := free_blocks a ! l - {x}]\<rparr>)
    (H \<union> {x ..< x + push_bit l (min_size a)})"
proof -
  let ?a = "a\<lparr>free_blocks := (free_blocks a)[l := free_blocks a ! l - {x}]\<rparr>"
  let ?b = "(Free, x, push_bit l (min_size a))"
  from h have wf: "well_formed a" and al: "aligned a" and ti: "tiling (blocks a) H (total_size a)"
    by (simp_all add: holding_def)
  from wf have len: "length (free_blocks a) = levels a" and S: "0 < min_size a"
    by (simp_all add: well_formed_def)
  have "well_formed ?a"
    using wf l by (auto simp: well_formed_def nth_list_update)
  moreover have "aligned ?a"
    using al l len by (auto simp: aligned_def nth_list_update)
  moreover have "?b \<in> blocks a"
    using l x by (auto simp: blocks_def)
  with ti have "tiling (blocks a - {?b}) (H \<union> region ?b) (total_size a)"
    by (rule tiling_remove)
  then have "tiling (blocks ?a) (H \<union> {x ..< x + push_bit l (min_size a)}) (total_size ?a)"
    using S by (simp add: blocks_free_remove [OF len l])
  ultimately show ?thesis
    by (simp add: holding_def)
qed

lemma holding_not_allocated:
  assumes h: "holding a H" and x: "x \<in> H"
  shows "allocated_blocks a x = None"
proof (rule ccontr)
  assume "allocated_blocks a x \<noteq> None"
  then obtain sz where sz: "allocated_blocks a x = Some sz"
    by blast
  then have b: "(Allocated, x, sz) \<in> blocks a"
    by (simp add: blocks_def)
  from h have ti: "tiling (blocks a) H (total_size a)"
    by (simp add: holding_def)
  with b have "0 < block_size (Allocated, x, sz)" and "region (Allocated, x, sz) \<inter> H = {}"
    unfolding tiling_def by blast+
  then have "x \<in> {x ..< x + sz}" and "{x ..< x + sz} \<inter> H = {}"
    by simp_all
  with x show False
    by blast
qed

lemma holding_allocated_insert:
  assumes h: "holding a H" and k: "k < levels a"
    and sub: "{x ..< x + push_bit k (min_size a)} \<subseteq> H"
    and dv: "push_bit k (min_size a) dvd x"
  shows "holding (a\<lparr>allocated_blocks := (allocated_blocks a)(x \<mapsto> push_bit k (min_size a))\<rparr>)
    (H - {x ..< x + push_bit k (min_size a)})"
proof -
  let ?sz = "push_bit k (min_size a)"
  let ?a = "a\<lparr>allocated_blocks := (allocated_blocks a)(x \<mapsto> ?sz)\<rparr>"
  let ?b = "(Allocated, x, ?sz)"
  from h have wf: "well_formed a" and al: "aligned a" and ti: "tiling (blocks a) H (total_size a)"
    by (simp_all add: holding_def)
  from wf have S: "0 < min_size a"
    by (simp add: well_formed_def)
  then have pos: "0 < ?sz"
    by (rule push_bit_pos)
  with sub have "x \<in> H"
    by auto
  with h have none: "allocated_blocks a x = None"
    by (rule holding_not_allocated)
  have "well_formed ?a"
    using wf k by (auto simp: well_formed_def)
  moreover have "aligned ?a"
    using al dv by (auto simp: aligned_def)
  moreover have "tiling (insert ?b (blocks a)) (H - region ?b) (total_size a)"
    using ti by (rule tiling_insert) (use sub pos in simp_all)
  then have "tiling (blocks ?a) (H - {x ..< x + ?sz}) (total_size ?a)"
    by (simp add: blocks_allocated_insert [OF none])
  ultimately show ?thesis
    by (simp add: holding_def)
qed

lemma holding_allocated_remove:
  assumes h: "holding a H" and x: "allocated_blocks a x = Some sz"
  shows "holding (a\<lparr>allocated_blocks := (allocated_blocks a)(x := None)\<rparr>) (H \<union> {x ..< x + sz})"
proof -
  let ?a = "a\<lparr>allocated_blocks := (allocated_blocks a)(x := None)\<rparr>"
  let ?b = "(Allocated, x, sz)"
  from h have wf: "well_formed a" and al: "aligned a" and ti: "tiling (blocks a) H (total_size a)"
    by (simp_all add: holding_def)
  have "well_formed ?a"
    using wf by (auto simp: well_formed_def)
  moreover have "aligned ?a"
    using al by (auto simp: aligned_def)
  moreover have "?b \<in> blocks a"
    using x by (simp add: blocks_def)
  with ti have "tiling (blocks a - {?b}) (H \<union> region ?b) (total_size a)"
    by (rule tiling_remove)
  then have "tiling (blocks ?a) (H \<union> {x ..< x + sz}) (total_size ?a)"
    by (simp add: blocks_allocated_remove [OF x])
  ultimately show ?thesis
    by (simp add: holding_def)
qed

subsection \<open>The buddy address\<close>

lemma xor_plus_and_int:
  fixes x y :: int
  shows "(x XOR y) + 2 * (x AND y) = x + y"
proof -
  have "(x XOR y) AND (x AND y) = 0"
    by (rule bit_eqI) (auto simp: bit_simps)
  then have "(x XOR y) + (x AND y) = (x XOR y) OR (x AND y)"
    by (rule disjunctive_add_eq_or)
  also have "\<dots> = x OR y"
    by (rule bit_eqI) (auto simp: bit_simps)
  finally have "(x XOR y) + (x AND y) = x OR y" .
  with plus_and_or [of x y] show ?thesis
    by simp
qed

lemma odd_factor:
  fixes M :: int
  assumes "0 < M"
  shows "\<exists>t s. M = 2 ^ t * s \<and> odd s"
  using assms
proof (induction "nat M" arbitrary: M rule: less_induct)
  case less
  show ?case
  proof (cases "odd M")
    case True
    then have "M = 2 ^ 0 * M \<and> odd M"
      by simp
    then show ?thesis
      by blast
  next
    case False
    then obtain M' where M': "M = 2 * M'"
      by (auto elim: evenE)
    with less.prems have "0 < M'" and "nat M' < nat M"
      by simp_all
    with less.hyps obtain t s where "M' = 2 ^ t * s" and "odd s"
      by blast
    with M' have "M = 2 ^ Suc t * s \<and> odd s"
      by simp
    then show ?thesis
      by blast
  qed
qed

text \<open>
  Whenever the address computed by the exclusive or is itself a multiple of the block
  size, the two blocks are the two halves of one aligned block of twice the size.
\<close>

lemma xor_buddy:
  fixes M x y :: int
  assumes M: "0 < M" and x: "M dvd x" and y: "M dvd y" and xor: "x XOR M = y"
  shows "buddies M x y"
proof -
  from odd_factor [OF M] obtain t s where Ms: "M = 2 ^ t * s" and s: "odd s"
    by blast
  from x obtain m where m: "x = M * m"
    by (auto elim: dvdE)
  have bitM: "bit M t"
    using s by (simp add: bit_iff_odd Ms)
  have bitx: "bit x t \<longleftrightarrow> odd m"
    using s by (simp add: bit_iff_odd m Ms)
  from xor_plus_and_int [of x M] xor have eq: "y = x + M - 2 * (x AND M)"
    by simp
  have lo: "0 \<le> x AND M" and hi: "x AND M \<le> M"
    using M by (simp_all add: AND_upper2)
  from y x have "M dvd y - x"
    by (rule dvd_diff)
  then obtain d where d: "y - x = M * d"
    by (auto elim: dvdE)
  have "y \<noteq> x"
  proof
    assume "y = x"
    with xor have "x XOR (x XOR M) = x XOR x"
      by simp
    moreover have "x XOR (x XOR M) = M"
      by (simp flip: xor.assoc)
    ultimately have "M = 0"
      by simp
    with M show False
      by simp
  qed
  with d have d0: "d \<noteq> 0"
    by auto
  from eq lo hi d have "M * d \<le> M" and "- M \<le> M * d"
    by linarith+
  then have "M * d \<le> M * 1" and "M * (- 1) \<le> M * d"
    by simp_all
  with M have "d \<le> 1" and "- 1 \<le> d"
    by (simp_all only: mult_le_cancel_left_pos)
  with d0 consider "d = 1" | "d = - 1"
    by linarith
  then show ?thesis
  proof cases
    case 1
    with d have yx: "y = x + M"
      by simp
    with eq have "x AND M = 0"
      by simp
    then have "\<not> bit (x AND M) t"
      by simp
    with bitM have "\<not> bit x t"
      by (simp add: bit_and_iff)
    with bitx have "even m"
      by simp
    then have "2 * M dvd x"
      by (auto simp: m elim: evenE)
    with yx show ?thesis
      by (simp add: buddies_def)
  next
    case 2
    with d have xy: "x = y + M"
      by simp
    with eq have "x AND M = M"
      by simp
    with bitM have "bit (x AND M) t"
      by simp
    then have "bit x t"
      by (simp add: bit_and_iff)
    with bitx have "odd m"
      by simp
    then obtain j where "m = 2 * j + 1"
      by (auto elim: oddE)
    with xy m have "y = 2 * M * j"
      by (simp add: algebra_simps)
    then have "2 * M dvd y"
      by simp
    with xy show ?thesis
      by (simp add: buddies_def)
  qed
qed

subsection \<open>The loops keep the invariants\<close>

lemma push_bit_Suc_int: "push_bit (Suc n) (S::int) = 2 * push_bit n S"
  by (simp add: push_bit_eq_mult)

lemma upper_half_subset:
  fixes M :: int
  shows "0 < M \<Longrightarrow> {x + M ..< x + M + M} \<subseteq> {x ..< x + 2 * M}"
  by auto

lemma lower_half_diff:
  fixes M :: int
  shows "0 < M \<Longrightarrow> {x ..< x + 2 * M} - {x + M ..< x + M + M} = {x ..< x + M}"
  by auto

lemma buddies_union:
  assumes "buddies M x y" and "0 < M"
  shows "{x ..< x + M} \<union> {y ..< y + M} = {min x y ..< min x y + 2 * M}"
  using assms by (auto simp: buddies_def min_def)

lemma buddies_min_dvd:
  assumes "buddies M x y" and "0 < M"
  shows "2 * M dvd min x y"
  using assms by (auto simp: buddies_def min_def)

lemma holding_split:
  assumes "holding (a\<lparr>free_blocks := fb\<rparr>) {addr ..< addr + push_bit lvl S}"
    and "S = min_size a" and "level \<le> lvl" and "lvl < levels a" and "push_bit lvl S dvd addr"
  shows "holding (a\<lparr>free_blocks := split S level addr fb lvl\<rparr>) {addr ..< addr + push_bit level S}"
  using assms
proof (induction S level addr fb lvl rule: split.induct)
  case (1 S level addr fb lvl)
  show ?case
  proof (cases "level < lvl")
    case False
    then have "split S level addr fb lvl = fb"
      by (simp add: split.simps [of S level addr fb lvl])
    moreover from False "1.prems"(3) have "level = lvl"
      by simp
    ultimately show ?thesis
      using "1.prems"(1) by simp
  next
    case True
    then obtain n where lvl: "lvl = Suc n"
      by (cases lvl) simp_all
    let ?M = "push_bit n S"
    let ?fb = "fb[n := insert (addr + ?M) (fb ! n)]"
    let ?a = "a\<lparr>free_blocks := fb\<rparr>"
    from "1.prems"(2) have Seq: "min_size a = S"
      by simp
    from "1.prems"(1) have "well_formed ?a"
      by (simp add: holding_def)
    then have S: "0 < S"
      by (simp add: well_formed_def Seq)
    then have M: "0 < ?M"
      by (rule push_bit_pos)
    have two: "push_bit lvl S = 2 * ?M"
      by (simp add: lvl push_bit_eq_mult)
    have n: "n < levels ?a"
      using "1.prems"(4) lvl by simp
    have minS: "min_size ?a = S"
      by (simp add: Seq)
    have sub: "{addr + ?M ..< addr + ?M + push_bit n (min_size ?a)} \<subseteq> {addr ..< addr + push_bit lvl S}"
      unfolding two minS using M by (rule upper_half_subset)
    from "1.prems"(5) have dv: "?M dvd addr"
      unfolding two by (rule dvd_mult_right)
    then have dv': "push_bit n (min_size ?a) dvd addr + ?M"
      unfolding minS by simp
    have "{addr ..< addr + push_bit lvl S} - {addr + ?M ..< addr + ?M + push_bit n (min_size ?a)} =
        {addr ..< addr + ?M}"
      unfolding two minS using M by (rule lower_half_diff)
    with holding_free_insert [OF "1.prems"(1) n sub dv']
    have h: "holding (a\<lparr>free_blocks := ?fb\<rparr>) {addr ..< addr + ?M}"
      by simp
    have n_eq: "n = lvl - 1" and le: "level \<le> n" and lt: "n < levels a"
      using True "1.prems"(4) lvl by simp_all
    have "holding (a\<lparr>free_blocks := split S level addr ?fb n\<rparr>) {addr ..< addr + push_bit level S}"
      using True n_eq refl h "1.prems"(2) le lt dv by (rule "1.IH")
    moreover have "split S level addr fb lvl = split S level addr ?fb n"
      using True unfolding lvl by (simp add: split.simps [of S level addr fb "Suc n"] Let_def)
    ultimately show ?thesis
      by simp
  qed
qed

lemma holding_coalesce:
  assumes "holding (a\<lparr>free_blocks := fb\<rparr>) {cur ..< cur + push_bit lvl S}"
    and "S = min_size a" and "L = levels a" and "lvl < L" and "push_bit lvl S dvd cur"
  shows "\<exists>fb' c l. coalesce S L fb cur lvl = (fb', Returned (c, l)) \<and> l < L \<and>
    holding (a\<lparr>free_blocks := fb'\<rparr>) {c ..< c + push_bit l S} \<and> push_bit l S dvd c"
  using assms
proof (induction S L fb cur lvl rule: coalesce.induct)
  case (1 S L fb cur lvl)
  let ?M = "push_bit lvl S"
  let ?buddy = "cur XOR ?M"
  let ?a = "a\<lparr>free_blocks := fb\<rparr>"
  have cond: "int lvl < int L - 1 \<longleftrightarrow> Suc lvl < L"
    by linarith
  from "1.prems"(1) have wf: "well_formed ?a" and al: "aligned ?a"
    by (simp_all add: holding_def)
  from "1.prems"(2,3) have Seq: "min_size a = S" and Leq: "levels a = L"
    by simp_all
  from wf have S: "0 < S" and len: "length fb = L"
    by (simp_all add: well_formed_def Seq Leq)
  then have M: "0 < ?M"
    by (simp add: push_bit_pos)
  show ?case
  proof (cases "Suc lvl < L \<and> ?buddy \<in> fb ! lvl")
    case False
    with cond len "1.prems"(4)
    have "coalesce S L fb cur lvl = (fb, Returned (cur, lvl))"
      by (auto simp: coalesce.simps [of S L fb cur lvl] Let_def)
    with "1.prems"(1,4,5) show ?thesis
      by simp
  next
    case True
    then have top: "Suc lvl < L" and mem: "?buddy \<in> fb ! lvl"
      by simp_all
    let ?fb = "fb[lvl := fb ! lvl - {?buddy}]"
    let ?c = "min cur ?buddy"
    from al mem "1.prems"(4) have dvb: "?M dvd ?buddy"
      by (auto simp: aligned_def Seq Leq)
    have bud: "buddies ?M cur ?buddy"
      using M "1.prems"(5) dvb refl by (rule xor_buddy)
    have minS: "min_size ?a = S"
      by (simp add: Seq)
    have lvl: "lvl < levels ?a" and mem': "?buddy \<in> free_blocks ?a ! lvl"
      using "1.prems"(4) mem by (simp_all add: Leq)
    have un: "{cur ..< cur + ?M} \<union> {?buddy ..< ?buddy + push_bit lvl (min_size ?a)} =
        {?c ..< ?c + push_bit (Suc lvl) S}"
      unfolding push_bit_Suc_int minS using bud M by (rule buddies_union)
    have dvc: "push_bit (Suc lvl) S dvd ?c"
      unfolding push_bit_Suc_int using bud M by (rule buddies_min_dvd)
    from holding_free_remove [OF "1.prems"(1) lvl mem'] un
    have h: "holding (a\<lparr>free_blocks := ?fb\<rparr>) {?c ..< ?c + push_bit (Suc lvl) S}"
      by simp
    have le: "lvl < length fb"
      using len "1.prems"(4) by simp
    from top cond have c1: "int lvl < int L - 1"
      by simp
    from le have c2: "\<not> length fb \<le> lvl"
      by simp
    from "1.IH" [OF c1 refl c2 mem h "1.prems"(2,3) top dvc]
    obtain fb' c l where "coalesce S L ?fb ?c (Suc lvl) = (fb', Returned (c, l))" "l < L"
      "holding (a\<lparr>free_blocks := fb'\<rparr>) {c ..< c + push_bit l S}" "push_bit l S dvd c"
      by blast
    moreover have "coalesce S L fb cur lvl = coalesce S L ?fb ?c (Suc lvl)"
      using c1 c2 mem by (simp add: coalesce.simps [of S L fb cur lvl] Let_def)
    ultimately show ?thesis
      by simp
  qed
qed

lemma push_bit_dvd_mono:
  fixes S :: int
  assumes "k \<le> l"
  shows "push_bit k S dvd push_bit l S"
proof -
  from assms obtain d where "l = k + d"
    by (auto simp: le_iff_add)
  then have "push_bit l S = push_bit k S * 2 ^ d"
    by (simp add: push_bit_eq_mult power_add)
  then show ?thesis
    by simp
qed

subsection \<open>The configuration does not change\<close>

lemma allocate_fields:
  "total_size (fst (allocate p pop a R)) = total_size a"
  "min_size (fst (allocate p pop a R)) = min_size a"
  "levels (fst (allocate p pop a R)) = levels a"
  by (simp_all add: allocate_def Let_def split: outcome.splits option.splits)

lemma deallocate_fields:
  "total_size (fst (deallocate p a addr)) = total_size a"
  "min_size (fst (deallocate p a addr)) = min_size a"
  "levels (fst (deallocate p a addr)) = levels a"
  by (simp_all add: deallocate_def Let_def split: outcome.splits option.splits prod.splits)

lemma perform_fields:
  "total_size (perform p a c) = total_size a"
  "min_size (perform p a c) = min_size a"
  "levels (perform p a c) = levels a"
  by (cases c; simp add: allocate_fields deallocate_fields)+

lemma run_fields:
  "total_size (run p a cs) = total_size a"
  "min_size (run p a cs) = min_size a"
  "levels (run p a cs) = levels a"
  unfolding run_def by (induction cs arbitrary: a; simp add: perform_fields)+

lemma init_power_fields:
  assumes "platform_ok p" and "0 < S" and "init p (S * 2 ^ n) S = Returned a"
  shows "total_size a = S * 2 ^ n" "min_size a = S" "levels a = Suc n"
  using assms(3) init_power [OF assms(1,2), of n] by auto

lemma allocate_Raised:
  "get_level p a R = Raised e \<Longrightarrow> allocate p pop a R = (a, Raised e)"
  by (simp add: allocate_def)

subsection \<open>The operations keep the invariants\<close>

lemma invariant_allocate_Some:
  assumes inv: "invariant a" and pop: "pop_ok pop"
    and k: "get_level p a R = Returned k"
    and found: "k \<le> lvl" "lvl < levels a" "free_blocks a ! lvl \<noteq> {}"
      "\<forall>l. k \<le> l \<and> l < lvl \<longrightarrow> free_blocks a ! l = {}"
  shows "\<exists>a'. allocate p pop a R = (a', Returned (Some (pop (free_blocks a ! lvl)))) \<and> invariant a' \<and>
    allocated_blocks a' (pop (free_blocks a ! lvl)) = Some (push_bit k (min_size a)) \<and>
    push_bit k (min_size a) dvd pop (free_blocks a ! lvl)"
proof -
  let ?S = "min_size a"
  let ?addr = "pop (free_blocks a ! lvl)"
  let ?fb1 = "(free_blocks a)[lvl := free_blocks a ! lvl - {?addr}]"
  let ?fb2 = "split ?S k ?addr ?fb1 lvl"
  let ?a2 = "a\<lparr>free_blocks := ?fb2\<rparr>"
  let ?a' = "?a2\<lparr>allocated_blocks := (allocated_blocks a)(?addr \<mapsto> push_bit k ?S)\<rparr>"
  from inv have h: "holding a {}"
    by (simp add: invariant_def)
  then have wf: "well_formed a" and al: "aligned a"
    by (simp_all add: holding_def)
  from wf have len: "length (free_blocks a) = levels a" and fin: "finite (free_blocks a ! lvl)"
    using found(2) by (simp_all add: well_formed_def)
  from pop fin found(3) have mem: "?addr \<in> free_blocks a ! lvl"
    by (simp add: pop_ok_def)
  with al found(2) have dv: "push_bit lvl ?S dvd ?addr"
    by (simp add: aligned_def)
  from holding_free_remove [OF h found(2) mem]
  have h1: "holding (a\<lparr>free_blocks := ?fb1\<rparr>) {?addr ..< ?addr + push_bit lvl ?S}"
    by simp
  have h2: "holding ?a2 {?addr ..< ?addr + push_bit k ?S}"
    using h1 refl found(1,2) dv by (rule holding_split)
  have dvk: "push_bit k ?S dvd ?addr"
    using push_bit_dvd_mono [OF found(1)] dv by (rule dvd_trans)
  have k': "k < levels ?a2"
    using found(1,2) by simp
  have "holding (?a2\<lparr>allocated_blocks := (allocated_blocks ?a2)(?addr \<mapsto> push_bit k (min_size ?a2))\<rparr>)
      ({?addr ..< ?addr + push_bit k ?S} - {?addr ..< ?addr + push_bit k (min_size ?a2)})"
    using h2 k' by (rule holding_allocated_insert) (use dvk in simp_all)
  then have "invariant ?a'"
    by (simp add: invariant_def)
  moreover have "allocate p pop a R = (?a', Returned (Some ?addr))"
    using allocate_Some [OF k _ found, of pop] len by simp
  ultimately show ?thesis
    using dvk by simp
qed

lemma invariant_allocate:
  assumes inv: "invariant a" and pop: "pop_ok pop"
  shows "invariant (fst (allocate p pop a R))"
    and "allocate p pop a R = (a', Returned (Some addr)) \<Longrightarrow>
      \<exists>sz. allocated_blocks a' addr = Some sz \<and> sz dvd addr"
proof -
  from inv have wf: "well_formed a"
    by (simp add: invariant_def holding_def)
  then have len: "levels a \<le> length (free_blocks a)"
    by (simp add: well_formed_def)
  have "invariant (fst (allocate p pop a R)) \<and>
    (allocate p pop a R = (a', Returned (Some addr)) \<longrightarrow>
      (\<exists>sz. allocated_blocks a' addr = Some sz \<and> sz dvd addr))"
  proof (cases "get_level p a R")
    case (Raised e)
    from allocate_Raised [OF this] inv show ?thesis
      by simp
  next
    case (Returned k)
    from len show ?thesis
    proof (cases rule: find_free_cases [where k = k])
      case 1
      from allocate_None [OF Returned len 1(2)] inv show ?thesis
        by simp
    next
      case (2 lvl)
      from invariant_allocate_Some [OF inv pop Returned 2(2-)] show ?thesis
        by auto
    qed
  qed
  then show "invariant (fst (allocate p pop a R))"
    and "allocate p pop a R = (a', Returned (Some addr)) \<Longrightarrow>
      \<exists>sz. allocated_blocks a' addr = Some sz \<and> sz dvd addr"
    by blast+
qed

lemma invariant_deallocate:
  assumes ok: "platform_ok p" and inv: "invariant a" and lev: "levels a \<le> 1024"
  shows "invariant (fst (deallocate p a addr))"
    and "\<exists>r. snd (deallocate p a addr) = Returned r"
proof -
  have "invariant (fst (deallocate p a addr)) \<and> (\<exists>r. snd (deallocate p a addr) = Returned r)"
  proof (cases "allocated_blocks a addr")
    case None
    with inv show ?thesis
      by (auto simp: deallocate_def)
  next
    case (Some sz)
    let ?S = "min_size a"
    let ?a1 = "a\<lparr>allocated_blocks := (allocated_blocks a)(addr := None)\<rparr>"
    from inv have h: "holding a {}"
      by (simp add: invariant_def)
    then have wf: "well_formed a" and al: "aligned a"
      by (simp_all add: holding_def)
    from wf have S: "0 < ?S"
      and shape: "\<forall>x sz. allocated_blocks a x = Some sz \<longrightarrow> (\<exists>k<levels a. sz = push_bit k ?S)"
      by (simp_all add: well_formed_def)
    from shape Some obtain k where k: "k < levels a" and sz: "sz = push_bit k ?S"
      by blast
    from al Some have dv: "sz dvd addr"
      by (simp add: aligned_def)
    from k lev have "k \<le> 1023"
      by simp
    with ok S have "get_level p a (push_bit k ?S) = Returned k"
      by (rule get_level_push_bit)
    then have lev: "get_level p ?a1 sz = Returned k"
      by (simp add: sz)
    from holding_allocated_remove [OF h Some]
    have "holding (?a1\<lparr>free_blocks := free_blocks a\<rparr>) {addr ..< addr + push_bit k ?S}"
      by (simp add: sz)
    then have "\<exists>fb' c l. coalesce ?S (levels a) (free_blocks a) addr k = (fb', Returned (c, l)) \<and>
        l < levels a \<and> holding (?a1\<lparr>free_blocks := fb'\<rparr>) {c ..< c + push_bit l ?S} \<and>
        push_bit l ?S dvd c"
      by (rule holding_coalesce) (use k dv sz in simp_all)
    then obtain fb' c l where co: "coalesce ?S (levels a) (free_blocks a) addr k = (fb', Returned (c, l))"
      and l: "l < levels a" and h1: "holding (?a1\<lparr>free_blocks := fb'\<rparr>) {c ..< c + push_bit l ?S}"
      and dvc: "push_bit l ?S dvd c"
      by blast
    let ?a2 = "?a1\<lparr>free_blocks := fb'\<rparr>"
    from h1 have "well_formed ?a2"
      by (simp add: holding_def)
    then have len: "length fb' = levels a"
      by (simp add: well_formed_def)
    have l': "l < levels ?a2"
      using l by simp
    have "holding (?a2\<lparr>free_blocks := (free_blocks ?a2)[l := insert c (free_blocks ?a2 ! l)]\<rparr>)
        ({c ..< c + push_bit l ?S} - {c ..< c + push_bit l (min_size ?a2)})"
      using h1 l' by (rule holding_free_insert) (use dvc in simp_all)
    then have "invariant (?a1\<lparr>free_blocks := fb'[l := insert c (fb' ! l)]\<rparr>)"
      by (simp add: invariant_def)
    moreover have "deallocate p a addr =
        (?a1\<lparr>free_blocks := fb'[l := insert c (fb' ! l)]\<rparr>, Returned True)"
      using Some lev co l len by (simp add: deallocate_def Let_def)
    ultimately show ?thesis
      by auto
  qed
  then show "invariant (fst (deallocate p a addr))" and "\<exists>r. snd (deallocate p a addr) = Returned r"
    by blast+
qed

lemma invariant_init:
  assumes ok: "platform_ok p" and S: "0 < S" and init: "init p (S * 2 ^ n) S = Returned a"
  shows "invariant a"
proof -
  from init init_power [OF ok S, of n]
  have a: "a = \<lparr>total_size = S * 2 ^ n, min_size = S, levels = Suc n,
       free_blocks = replicate n {} @ [{0}], allocated_blocks = Map.empty\<rparr>"
    by simp
  have nth: "(replicate n {} @ [{0::int}]) ! l = (if l = n then {0} else {})" if "l < Suc n" for l
    using that by (auto simp: nth_append)
  have "well_formed a"
    using S by (auto simp: a well_formed_def push_bit_eq_mult nth simp del: replicate.simps)
  moreover have "aligned a"
    by (auto simp: a aligned_def nth simp del: replicate.simps split: if_splits)
  moreover have "blocks a = {(Free, 0, S * 2 ^ n)}"
  proof -
    have "{(Free, x, push_bit l S) | l x. l < Suc n \<and> x \<in> (replicate n {} @ [{0::int}]) ! l} =
        {(Free, 0, S * 2 ^ n)}" (is "?A = ?B")
    proof (intro set_eqI iffI)
      fix p assume "p \<in> ?A"
      then obtain l x where p: "p = (Free, x, push_bit l S)" and l: "l < Suc n"
        and x: "x \<in> (replicate n {} @ [{0::int}]) ! l"
        by blast
      from x nth [OF l] have "l = n" and "x = 0"
        by (simp_all split: if_splits)
      with p show "p \<in> ?B"
        by (simp add: push_bit_eq_mult)
    next
      fix p assume "p \<in> ?B"
      then have p: "p = (Free, 0, push_bit n S)"
        by (simp add: push_bit_eq_mult)
      have "n < Suc n \<and> 0 \<in> (replicate n {} @ [{0::int}]) ! n"
        by (simp add: nth)
      with p show "p \<in> ?A"
        by blast
    qed
    then show ?thesis
      by (simp add: a blocks_def del: replicate.simps)
  qed
  then have "tiling (blocks a) {} (total_size a)"
    using S by (simp add: tiling_def a)
  ultimately show ?thesis
    by (simp add: invariant_def holding_def)
qed

lemma invariant_perform:
  assumes "platform_ok p" and "invariant a" and "levels a \<le> 1024" and "call_ok c"
  shows "invariant (perform p a c)"
  using assms by (cases c) (simp_all add: invariant_allocate(1) invariant_deallocate(1))

lemma invariant_run:
  assumes "platform_ok p" and "invariant a" and "levels a \<le> 1024" and "\<forall>c\<in>set cs. call_ok c"
  shows "invariant (run p a cs)"
  using assms(2-) unfolding run_def
proof (induction cs arbitrary: a)
  case Nil
  then show ?case
    by simp
next
  case (Cons c cs)
  from Cons.prems have "invariant (perform p a c)"
    by (simp add: invariant_perform [OF assms(1)])
  moreover from Cons.prems have "levels (perform p a c) \<le> 1024"
    by (simp add: perform_fields)
  ultimately show ?case
    using Cons.prems(3) by (simp add: Cons.IH)
qed

subsection \<open>Alignment is kept by every call\<close>

lemma sound_free_insert:
  assumes "sound a" and "l < levels a" and "push_bit l (min_size a) dvd x"
  shows "sound (a\<lparr>free_blocks := (free_blocks a)[l := insert x (free_blocks a ! l)]\<rparr>)"
  using assms by (auto simp: sound_def well_formed_def aligned_def nth_list_update)

lemma sound_free_remove:
  assumes "sound a" and "l < levels a"
  shows "sound (a\<lparr>free_blocks := (free_blocks a)[l := free_blocks a ! l - {x}]\<rparr>)"
  using assms by (auto simp: sound_def well_formed_def aligned_def nth_list_update)

lemma sound_allocated_insert:
  assumes "sound a" and "k < levels a" and "push_bit k (min_size a) dvd x"
  shows "sound (a\<lparr>allocated_blocks := (allocated_blocks a)(x \<mapsto> push_bit k (min_size a))\<rparr>)"
  using assms by (auto simp: sound_def well_formed_def aligned_def)

lemma sound_allocated_remove:
  assumes "sound a"
  shows "sound (a\<lparr>allocated_blocks := (allocated_blocks a)(x := None)\<rparr>)"
  using assms by (auto simp: sound_def well_formed_def aligned_def)

lemma sound_split:
  assumes "sound (a\<lparr>free_blocks := fb\<rparr>)"
    and "S = min_size a" and "level \<le> lvl" and "lvl < levels a" and "push_bit lvl S dvd addr"
  shows "sound (a\<lparr>free_blocks := split S level addr fb lvl\<rparr>)"
  using assms
proof (induction S level addr fb lvl rule: split.induct)
  case (1 S level addr fb lvl)
  show ?case
  proof (cases "level < lvl")
    case False
    then have "split S level addr fb lvl = fb"
      by (simp add: split.simps [of S level addr fb lvl])
    with "1.prems"(1) show ?thesis
      by simp
  next
    case True
    then obtain n where lvl: "lvl = Suc n"
      by (cases lvl) simp_all
    let ?M = "push_bit n S"
    let ?fb = "fb[n := insert (addr + ?M) (fb ! n)]"
    let ?a = "a\<lparr>free_blocks := fb\<rparr>"
    from "1.prems"(2) have Seq: "min_size a = S"
      by simp
    have two: "push_bit lvl S = 2 * ?M"
      by (simp add: lvl push_bit_eq_mult)
    have n: "n < levels ?a"
      using "1.prems"(4) lvl by simp
    from "1.prems"(5) have dv: "?M dvd addr"
      unfolding two by (rule dvd_mult_right)
    then have dv': "push_bit n (min_size ?a) dvd addr + ?M"
      by (simp add: Seq)
    from sound_free_insert [OF "1.prems"(1) n dv']
    have h: "sound (a\<lparr>free_blocks := ?fb\<rparr>)"
      by simp
    have n_eq: "n = lvl - 1" and le: "level \<le> n" and lt: "n < levels a"
      using True "1.prems"(4) lvl by simp_all
    have "sound (a\<lparr>free_blocks := split S level addr ?fb n\<rparr>)"
      using True n_eq refl h "1.prems"(2) le lt dv by (rule "1.IH")
    moreover have "split S level addr fb lvl = split S level addr ?fb n"
      using True unfolding lvl by (simp add: split.simps [of S level addr fb "Suc n"] Let_def)
    ultimately show ?thesis
      by simp
  qed
qed

lemma sound_coalesce:
  assumes "sound (a\<lparr>free_blocks := fb\<rparr>)"
    and "S = min_size a" and "L = levels a" and "lvl < L" and "push_bit lvl S dvd cur"
  shows "\<exists>fb' c l. coalesce S L fb cur lvl = (fb', Returned (c, l)) \<and> l < L \<and>
    sound (a\<lparr>free_blocks := fb'\<rparr>) \<and> push_bit l S dvd c"
  using assms
proof (induction S L fb cur lvl rule: coalesce.induct)
  case (1 S L fb cur lvl)
  let ?M = "push_bit lvl S"
  let ?buddy = "cur XOR ?M"
  let ?a = "a\<lparr>free_blocks := fb\<rparr>"
  have cond: "int lvl < int L - 1 \<longleftrightarrow> Suc lvl < L"
    by linarith
  from "1.prems"(1) have wf: "well_formed ?a" and al: "aligned ?a"
    by (simp_all add: sound_def)
  from "1.prems"(2,3) have Seq: "min_size a = S" and Leq: "levels a = L"
    by simp_all
  from wf have S: "0 < S" and len: "length fb = L"
    by (simp_all add: well_formed_def Seq Leq)
  then have M: "0 < ?M"
    by (simp add: push_bit_pos)
  show ?case
  proof (cases "Suc lvl < L \<and> ?buddy \<in> fb ! lvl")
    case False
    with cond len "1.prems"(4)
    have "coalesce S L fb cur lvl = (fb, Returned (cur, lvl))"
      by (auto simp: coalesce.simps [of S L fb cur lvl] Let_def)
    with "1.prems"(1,4,5) show ?thesis
      by simp
  next
    case True
    then have top: "Suc lvl < L" and mem: "?buddy \<in> fb ! lvl"
      by simp_all
    let ?fb = "fb[lvl := fb ! lvl - {?buddy}]"
    let ?c = "min cur ?buddy"
    from al mem "1.prems"(4) have dvb: "?M dvd ?buddy"
      by (auto simp: aligned_def Seq Leq)
    have bud: "buddies ?M cur ?buddy"
      using M "1.prems"(5) dvb refl by (rule xor_buddy)
    have lvl: "lvl < levels ?a"
      using "1.prems"(4) by (simp add: Leq)
    have dvc: "push_bit (Suc lvl) S dvd ?c"
      unfolding push_bit_Suc_int using bud M by (rule buddies_min_dvd)
    from sound_free_remove [OF "1.prems"(1) lvl, of ?buddy]
    have h: "sound (a\<lparr>free_blocks := ?fb\<rparr>)"
      by simp
    have le: "lvl < length fb"
      using len "1.prems"(4) by simp
    from top cond have c1: "int lvl < int L - 1"
      by simp
    from le have c2: "\<not> length fb \<le> lvl"
      by simp
    from "1.IH" [OF c1 refl c2 mem h "1.prems"(2,3) top dvc]
    obtain fb' c l where "coalesce S L ?fb ?c (Suc lvl) = (fb', Returned (c, l))" "l < L"
      "sound (a\<lparr>free_blocks := fb'\<rparr>)" "push_bit l S dvd c"
      by blast
    moreover have "coalesce S L fb cur lvl = coalesce S L ?fb ?c (Suc lvl)"
      using c1 c2 mem by (simp add: coalesce.simps [of S L fb cur lvl] Let_def)
    ultimately show ?thesis
      by simp
  qed
qed

lemma sound_allocate:
  assumes so: "sound a" and pop: "pop_ok pop"
  shows "sound (fst (allocate p pop a R))"
    and "allocate p pop a R = (a', Returned (Some addr)) \<Longrightarrow>
      \<exists>sz. allocated_blocks a' addr = Some sz \<and> sz dvd addr"
proof -
  from so have wf: "well_formed a" and al: "aligned a"
    by (simp_all add: sound_def)
  from wf have len: "levels a \<le> length (free_blocks a)" and leq: "length (free_blocks a) = levels a"
    by (simp_all add: well_formed_def)
  have "sound (fst (allocate p pop a R)) \<and>
    (allocate p pop a R = (a', Returned (Some addr)) \<longrightarrow>
      (\<exists>sz. allocated_blocks a' addr = Some sz \<and> sz dvd addr))"
  proof (cases "get_level p a R")
    case (Raised e)
    from allocate_Raised [OF this] so show ?thesis
      by simp
  next
    case (Returned k)
    from len show ?thesis
    proof (cases rule: find_free_cases [where k = k])
      case 1
      from allocate_None [OF Returned len 1(2)] so show ?thesis
        by simp
    next
      case (2 lvl)
      let ?S = "min_size a"
      let ?addr = "pop (free_blocks a ! lvl)"
      let ?fb1 = "(free_blocks a)[lvl := free_blocks a ! lvl - {?addr}]"
      let ?fb2 = "split ?S k ?addr ?fb1 lvl"
      let ?a2 = "a\<lparr>free_blocks := ?fb2\<rparr>"
      let ?a' = "?a2\<lparr>allocated_blocks := (allocated_blocks a)(?addr \<mapsto> push_bit k ?S)\<rparr>"
      from wf 2(3) have fin: "finite (free_blocks a ! lvl)"
        by (simp add: well_formed_def)
      with pop 2(4) have mem: "?addr \<in> free_blocks a ! lvl"
        by (simp add: pop_ok_def)
      with al 2(3) have dv: "push_bit lvl ?S dvd ?addr"
        by (simp add: aligned_def)
      from sound_free_remove [OF so 2(3), of ?addr]
      have s1: "sound (a\<lparr>free_blocks := ?fb1\<rparr>)"
        by simp
      have s2: "sound ?a2"
        using s1 refl 2(2,3) dv by (rule sound_split)
      have dvk: "push_bit k ?S dvd ?addr"
        using push_bit_dvd_mono [OF 2(2)] dv by (rule dvd_trans)
      have k': "k < levels ?a2"
        using 2(2,3) by simp
      have "sound (?a2\<lparr>allocated_blocks := (allocated_blocks ?a2)(?addr \<mapsto> push_bit k (min_size ?a2))\<rparr>)"
        using s2 k' by (rule sound_allocated_insert) (use dvk in simp)
      then have "sound ?a'"
        by simp
      moreover have "allocate p pop a R = (?a', Returned (Some ?addr))"
        using allocate_Some [OF Returned len 2(2-), of pop] by simp
      ultimately show ?thesis
        using dvk by auto
    qed
  qed
  then show "sound (fst (allocate p pop a R))"
    and "allocate p pop a R = (a', Returned (Some addr)) \<Longrightarrow>
      \<exists>sz. allocated_blocks a' addr = Some sz \<and> sz dvd addr"
    by blast+
qed

lemma sound_deallocate:
  assumes ok: "platform_ok p" and so: "sound a"
  shows "sound (fst (deallocate p a addr))"
proof (cases "allocated_blocks a addr")
  case None
  with so show ?thesis
    by (simp add: deallocate_def)
next
  case (Some sz)
  let ?S = "min_size a"
  let ?a1 = "a\<lparr>allocated_blocks := (allocated_blocks a)(addr := None)\<rparr>"
  from so have wf: "well_formed a" and al: "aligned a"
    by (simp_all add: sound_def)
  from wf have S: "0 < ?S"
    and shape: "\<forall>x sz. allocated_blocks a x = Some sz \<longrightarrow> (\<exists>k<levels a. sz = push_bit k ?S)"
    by (simp_all add: well_formed_def)
  from shape Some obtain k where k: "k < levels a" and sz: "sz = push_bit k ?S"
    by blast
  from al Some have dv: "sz dvd addr"
    by (simp add: aligned_def)
  from so have s1: "sound ?a1"
    by (rule sound_allocated_remove)
  show ?thesis
  proof (cases "k \<le> 1023")
    case False
    then have "1024 \<le> k"
      by simp
    with S have "get_level p a (push_bit k ?S) = Raised OverflowError"
      by (rule get_level_overflow)
    then have "get_level p ?a1 sz = Raised OverflowError"
      by (simp add: sz)
    with Some have "deallocate p a addr = (?a1, Raised OverflowError)"
      by (simp add: deallocate_def Let_def)
    with s1 show ?thesis
      by simp
  next
    case True
    with ok S have "get_level p a (push_bit k ?S) = Returned k"
      by (rule get_level_push_bit)
    then have lev: "get_level p ?a1 sz = Returned k"
      by (simp add: sz)
    from s1 have "sound (?a1\<lparr>free_blocks := free_blocks a\<rparr>)"
      by simp
    then have "\<exists>fb' c l. coalesce ?S (levels a) (free_blocks a) addr k = (fb', Returned (c, l)) \<and>
        l < levels a \<and> sound (?a1\<lparr>free_blocks := fb'\<rparr>) \<and> push_bit l ?S dvd c"
      by (rule sound_coalesce) (use k dv sz in simp_all)
    then obtain fb' c l where co: "coalesce ?S (levels a) (free_blocks a) addr k = (fb', Returned (c, l))"
      and l: "l < levels a" and s2: "sound (?a1\<lparr>free_blocks := fb'\<rparr>)"
      and dvc: "push_bit l ?S dvd c"
      by blast
    let ?a2 = "?a1\<lparr>free_blocks := fb'\<rparr>"
    from s2 have "well_formed ?a2"
      by (simp add: sound_def)
    then have len: "length fb' = levels a"
      by (simp add: well_formed_def)
    have l': "l < levels ?a2"
      using l by simp
    have "sound (?a2\<lparr>free_blocks := (free_blocks ?a2)[l := insert c (free_blocks ?a2 ! l)]\<rparr>)"
      using s2 l' by (rule sound_free_insert) (use dvc in simp)
    then have "sound (?a1\<lparr>free_blocks := fb'[l := insert c (fb' ! l)]\<rparr>)"
      by simp
    moreover have "deallocate p a addr =
        (?a1\<lparr>free_blocks := fb'[l := insert c (fb' ! l)]\<rparr>, Returned True)"
      using Some lev co l len by (simp add: deallocate_def Let_def)
    ultimately show ?thesis
      by simp
  qed
qed

lemma sound_perform:
  assumes "platform_ok p" and "sound a" and "call_ok c"
  shows "sound (perform p a c)"
  using assms by (cases c) (simp_all add: sound_allocate(1) sound_deallocate)

lemma sound_run:
  assumes "platform_ok p" and "sound a" and "\<forall>c\<in>set cs. call_ok c"
  shows "sound (run p a cs)"
  using assms(2-) unfolding run_def
  by (induction cs arbitrary: a) (simp_all add: sound_perform [OF assms(1)])

lemma sound_init:
  assumes "platform_ok p" and "0 < S" and "init p (S * 2 ^ n) S = Returned a"
  shows "sound a"
  using invariant_init [OF assms] by (simp add: invariant_def holding_def sound_def)

subsection \<open>Conservation\<close>

lemma tiling_sum:
  assumes ti: "tiling B {} T" and fin: "finite B" and T: "0 \<le> T"
  shows "(\<Sum>b\<in>B. block_size b) = T"
proof -
  from ti have pos: "\<forall>b\<in>B. 0 < block_size b"
    and dis: "\<forall>b\<in>B. \<forall>c\<in>B. b \<noteq> c \<longrightarrow> region b \<inter> region c = {}"
    and cover: "(\<Union>b\<in>B. region b) = {0..<T}"
    by (simp_all add: tiling_def)
  have card: "card (region b) = nat (block_size b)" for b
    by (simp add: region_def)
  have "card (\<Union>b\<in>B. region b) = (\<Sum>b\<in>B. card (region b))"
    using fin _ dis by (rule card_UN_disjoint) (simp add: region_def)
  then have "nat T = (\<Sum>b\<in>B. nat (block_size b))"
    by (simp add: cover card)
  then have "int (nat T) = (\<Sum>b\<in>B. int (nat (block_size b)))"
    by simp
  also have "\<dots> = (\<Sum>b\<in>B. block_size b)"
    using pos by (intro sum.cong) (auto simp: less_imp_le)
  finally show ?thesis
    using T by simp
qed

lemma blocks_alt:
  "blocks a =
    (\<Union>l\<in>{..<levels a}. (\<lambda>x. (Free, x, push_bit l (min_size a))) ` (free_blocks a ! l)) \<union>
    (\<lambda>x. (Allocated, x, the (allocated_blocks a x))) ` dom (allocated_blocks a)"
  by (force simp: blocks_def)

lemma finite_blocks:
  assumes "well_formed a"
  shows "finite (blocks a)"
  using assms unfolding blocks_alt by (auto simp: well_formed_def)

lemma sum_blocks:
  assumes wf: "well_formed a"
  shows "(\<Sum>b\<in>blocks a. block_size b) = free_total a + allocated_total a"
proof -
  let ?S = "min_size a"
  let ?F = "\<lambda>l. (\<lambda>x. (Free, x, push_bit l ?S)) ` (free_blocks a ! l)"
  let ?A = "(\<lambda>x. (Allocated, x, the (allocated_blocks a x))) ` dom (allocated_blocks a)"
  from wf have S: "?S \<noteq> 0" and finF: "\<forall>l\<in>{..<levels a}. finite (?F l)"
    and finA: "finite ?A"
    by (auto simp: well_formed_def)
  have disF: "\<forall>l\<in>{..<levels a}. \<forall>l'\<in>{..<levels a}. l \<noteq> l' \<longrightarrow> ?F l \<inter> ?F l' = {}"
    using S by (auto dest: push_bit_inj_level)
  have "(\<Sum>b\<in>(\<Union>l\<in>{..<levels a}. ?F l). block_size b) = (\<Sum>l\<in>{..<levels a}. \<Sum>b\<in>?F l. block_size b)"
    using _ finF disF by (rule sum.UNION_disjoint) simp
  also have "\<dots> = (\<Sum>l<levels a. \<Sum>x\<in>free_blocks a ! l. push_bit l ?S)"
  proof (rule sum.cong [OF refl])
    fix l
    have "inj_on (\<lambda>x. (Free, x, push_bit l ?S)) (free_blocks a ! l)"
      by (simp add: inj_on_def)
    then show "(\<Sum>b\<in>?F l. block_size b) = (\<Sum>x\<in>free_blocks a ! l. push_bit l ?S)"
      by (simp add: sum.reindex)
  qed
  finally have F: "(\<Sum>b\<in>(\<Union>l\<in>{..<levels a}. ?F l). block_size b) = free_total a"
    by (simp add: free_total_def)
  have "inj_on (\<lambda>x. (Allocated, x, the (allocated_blocks a x))) (dom (allocated_blocks a))"
    by (simp add: inj_on_def)
  then have A: "(\<Sum>b\<in>?A. block_size b) = allocated_total a"
    by (simp add: sum.reindex allocated_total_def)
  have "(\<Union>l\<in>{..<levels a}. ?F l) \<inter> ?A = {}"
    by auto
  moreover have "finite (\<Union>l\<in>{..<levels a}. ?F l)"
    using finF by simp
  ultimately have "(\<Sum>b\<in>(\<Union>l\<in>{..<levels a}. ?F l) \<union> ?A. block_size b) =
      (\<Sum>b\<in>(\<Union>l\<in>{..<levels a}. ?F l). block_size b) + (\<Sum>b\<in>?A. block_size b)"
    using finA by (intro sum.union_disjoint)
  with F A show ?thesis
    by (simp only: blocks_alt)
qed

lemma invariant_conservation:
  assumes "invariant a"
  shows "free_total a + allocated_total a = total_size a"
proof -
  from assms have wf: "well_formed a" and ti: "tiling (blocks a) {} (total_size a)"
    by (simp_all add: invariant_def holding_def)
  from wf have "0 \<le> total_size a"
    by (simp add: well_formed_def push_bit_eq_mult)
  with ti finite_blocks [OF wf] have "(\<Sum>b\<in>blocks a. block_size b) = total_size a"
    by (rule tiling_sum)
  with sum_blocks [OF wf] show ?thesis
    by simp
qed

subsection \<open>A deallocation that raises\<close>

lemma top_level_nth: "(replicate n X @ [Y]) ! n = Y"
  by (simp add: nth_append)

lemma top_level_update: "(replicate n X @ [Y])[n := Z] = replicate n X @ [Z]"
  by (simp add: list_update_append)

lemma top_level_allocate:
  assumes "get_level p a R = Returned n" and "levels a = Suc n"
    and "free_blocks a = replicate n {} @ [{0}]"
  shows "allocate p Min a R =
    (a\<lparr>free_blocks := replicate n {} @ [{}],
       allocated_blocks := (allocated_blocks a)(0 \<mapsto> push_bit n (min_size a))\<rparr>,
     Returned (Some 0))"
proof -
  have len: "levels a \<le> length (free_blocks a)"
    by (simp add: assms(2,3))
  have top: "free_blocks a ! n = {0}"
    unfolding assms(3) by (rule top_level_nth)
  have "allocate p Min a R =
    (a\<lparr>free_blocks := split (min_size a) n (Min (free_blocks a ! n))
          ((free_blocks a)[n := free_blocks a ! n - {Min (free_blocks a ! n)}]) n,
       allocated_blocks := (allocated_blocks a)(Min (free_blocks a ! n) \<mapsto> push_bit n (min_size a))\<rparr>,
     Returned (Some (Min (free_blocks a ! n))))"
    using assms(1) len by (rule allocate_Some) (auto simp: assms(2) top)
  moreover have "(free_blocks a)[n := {}] = replicate n {} @ [{}]"
    unfolding assms(3) by (rule top_level_update)
  ultimately show ?thesis
    by (simp add: top split.simps [of _ n _ _ n])
qed

lemma init_huge: "init ideal (1 * 2 ^ 1024) 1 = Returned fresh_huge"
proof -
  have "Suc 1024 = 1025"
    by simp
  with init_power [OF platform_ok_ideal, of 1 1024] show ?thesis
    by (simp only: fresh_huge_def mult_1 zero_less_one)
qed

lemma allocate_huge:
  "allocate ideal Min fresh_huge (2 ^ 1023 + 2 ^ 1000) = (huge_allocated, Returned (Some 0))"
proof -
  have 1: "get_level ideal fresh_huge (2 ^ 1023 + 2 ^ 1000) = Returned 1024"
    by (rule get_level_ideal_big) (simp add: fresh_huge_def)
  have 2: "levels fresh_huge = Suc 1024"
    by (simp add: fresh_huge_def)
  have 3: "free_blocks fresh_huge = replicate 1024 {} @ [{0}]"
    by (simp only: fresh_huge_def allocator.simps)
  have 4: "push_bit 1024 (min_size fresh_huge) = 2 ^ 1024"
    by (simp only: fresh_huge_def allocator.simps push_bit_eq_mult mult_1)
  have 5: "fresh_huge\<lparr>free_blocks := replicate 1024 {} @ [{}],
      allocated_blocks := (allocated_blocks fresh_huge)(0 \<mapsto> 2 ^ 1024)\<rparr> = huge_allocated"
    by (simp only: fresh_huge_def huge_allocated_def allocator.simps allocator.update_convs)
  from top_level_allocate [OF 1 2 3] show ?thesis
    unfolding 4 5 .
qed

lemma deallocate_huge: "deallocate ideal huge_allocated 0 = (huge_dropped, Raised OverflowError)"
proof -
  have 1: "allocated_blocks huge_allocated 0 = Some (push_bit 1024 (min_size huge_dropped))"
    by (simp only: huge_allocated_def huge_dropped_def allocator.simps push_bit_eq_mult mult_1
        fun_upd_same)
  have "(Map.empty :: int \<rightharpoonup> int)(0 := None) = Map.empty"
    by simp
  then have 2: "huge_allocated\<lparr>allocated_blocks := (allocated_blocks huge_allocated)(0 := None)\<rparr> =
      huge_dropped"
    by (simp only: huge_allocated_def huge_dropped_def allocator.simps allocator.update_convs
        fun_upd_upd)
  have "0 < min_size huge_dropped"
    by (simp add: huge_dropped_def)
  then have 3: "get_level ideal huge_dropped (push_bit 1024 (min_size huge_dropped)) =
      Raised OverflowError"
    by (rule get_level_overflow) simp
  show ?thesis
    by (simp only: deallocate_def 1 option.case Let_def 2 3 outcome.case)
qed

lemma totals_huge_dropped: "free_total huge_dropped = 0" "allocated_total huge_dropped = 0"
proof -
  have "replicate 1024 ({}::int set) @ [{}] = replicate (Suc 1024) {}"
    by (simp only: replicate_append_same replicate.simps)
  then have "free_blocks huge_dropped ! l = {}" if "l < levels huge_dropped" for l
    using that by (simp add: huge_dropped_def del: replicate.simps)
  then show "free_total huge_dropped = 0"
    by (simp add: free_total_def)
  show "allocated_total huge_dropped = 0"
    by (simp add: allocated_total_def huge_dropped_def)
qed

text \<open>
  Claim C1 (conservation of space), as the specification states it, does not hold for
  every \<open>n\<close>. Over the minimum block size 1 with the total size \<open>2 ^ 1024\<close> the constructor
  returns an allocator of 1025 levels. The request of \<open>2 ^ 1023 + 2 ^ 1000\<close> is given the
  top level and the whole range, recorded with the size \<open>2 ^ 1024\<close>. \<^verbatim>\<open>deallocate\<close> of
  address 0 then takes the entry out of the allocated map and raises
  \<^verbatim>\<open>OverflowError\<close> in the division of the level computation, before it has put any
  block into a free set: the free and the allocated sizes now sum to 0.
\<close>

theorem conservation_overflow_counterexample:
  "init ideal (1 * 2 ^ 1024) 1 = Returned fresh_huge \<and>
   allocate ideal Min fresh_huge (2 ^ 1023 + 2 ^ 1000) = (huge_allocated, Returned (Some 0)) \<and>
   deallocate ideal huge_allocated 0 = (huge_dropped, Raised OverflowError) \<and>
   run ideal fresh_huge [Allocate Min (2 ^ 1023 + 2 ^ 1000), Deallocate 0] = huge_dropped \<and>
   free_total huge_dropped + allocated_total huge_dropped = 0 \<and>
   total_size huge_dropped = 1 * 2 ^ 1024"
proof -
  have "run ideal fresh_huge [Allocate Min (2 ^ 1023 + 2 ^ 1000), Deallocate 0] = huge_dropped"
    by (simp only: run_def foldl.simps perform.simps allocate_huge deallocate_huge fst_conv)
  moreover have "total_size huge_dropped = 1 * 2 ^ 1024"
    by (simp only: huge_dropped_def allocator.simps mult_1)
  ultimately show ?thesis
    by (simp only: init_huge allocate_huge deallocate_huge totals_huge_dropped simp_thms add_0)
qed

text \<open>
  Claim C1 as amended. Take an allocator constructed over a positive minimum block size
  \<open>S\<close> with the total size \<open>S * 2 ^ n\<close> for an \<open>n\<close> of at most 1023, with \<^verbatim>\<open>math.log2\<close>
  exact on the powers of two, and any sequence of \<^verbatim>\<open>allocate\<close> and \<^verbatim>\<open>deallocate\<close> calls,
  whatever member each \<^verbatim>\<open>pop()\<close> picks. After the sequence, so after every call of it,
  the sizes of the blocks in the per-level free sets and the sizes recorded in the
  allocated map sum to the total size, and the free and allocated blocks tile the range
  from 0 to the total size: none is empty, no two overlap, nothing is left out.
\<close>

theorem conservation_of_space:
  assumes "platform_ok p" and "0 < S" and "n \<le> 1023"
    and "init p (S * 2 ^ n) S = Returned a0" and "\<forall>c\<in>set cs. call_ok c"
  shows "free_total (run p a0 cs) + allocated_total (run p a0 cs) = S * 2 ^ n \<and>
    tiling (blocks (run p a0 cs)) {} (S * 2 ^ n)"
proof -
  from assms(1,2,4) have "invariant a0"
    by (rule invariant_init)
  moreover from assms(3) have "levels a0 \<le> 1024"
    by (simp add: init_power_fields(3) [OF assms(1,2,4)])
  ultimately have inv: "invariant (run p a0 cs)"
    using assms(1,5) by (intro invariant_run)
  have T: "total_size (run p a0 cs) = S * 2 ^ n"
    using init_power_fields(1) [OF assms(1,2,4)] by (simp add: run_fields)
  from invariant_conservation [OF inv] inv T show ?thesis
    by (simp add: invariant_def holding_def)
qed

theorem conservation_of_space_witness:
  "free_total (run ideal fresh_1024_128 [Allocate Min 128, Allocate Min 300, Deallocate 0]) +
   allocated_total (run ideal fresh_1024_128 [Allocate Min 128, Allocate Min 300, Deallocate 0]) = 1024"
proof -
  have 1: "(0::int) < 128" and 2: "init ideal (128 * 2 ^ 3) 128 = Returned fresh_1024_128"
    and 3: "(3::nat) \<le> 1023"
    by (simp_all add: init_1024_128 platform_ok_ideal)
  have 4: "\<forall>c\<in>set [Allocate Min 128, Allocate Min 300, Deallocate 0]. call_ok c"
    by (simp add: pop_ok_Min)
  from conservation_of_space [OF platform_ok_ideal 1 3 2 4] show ?thesis
    by simp
qed

text \<open>
  Claim C7 (alignment). For an allocator constructed over a positive minimum block size
  \<open>S\<close> with the total size \<open>S * 2 ^ n\<close>, with \<^verbatim>\<open>math.log2\<close> exact on the powers of two,
  after any sequence of calls, also of calls that raise an exception: every address in the
  free set of a level \<open>l\<close> is a multiple of \<open>S * 2 ^ l\<close>, every address of the allocated
  map is a multiple of the size recorded for it, and every address that a further
  \<^verbatim>\<open>allocate\<close> returns is a multiple of the size recorded for it.
\<close>

theorem alignment_invariant:
  assumes "platform_ok p" and "0 < S" and "init p (S * 2 ^ n) S = Returned a0"
    and "\<forall>c\<in>set cs. call_ok c" and "a = run p a0 cs"
  shows "(\<forall>l<levels a. \<forall>x\<in>free_blocks a ! l. S * 2 ^ l dvd x) \<and>
    (\<forall>x sz. allocated_blocks a x = Some sz \<longrightarrow> sz dvd x) \<and>
    (\<forall>pop R a' addr. pop_ok pop \<longrightarrow> allocate p pop a R = (a', Returned (Some addr)) \<longrightarrow>
       (\<exists>sz. allocated_blocks a' addr = Some sz \<and> sz dvd addr))"
proof -
  from assms(1,2,3) have "sound a0"
    by (rule sound_init)
  with assms(1) have so: "sound a"
    unfolding assms(5) using assms(4) by (rule sound_run)
  have S: "min_size a = S"
    using init_power_fields(2) [OF assms(1,2,3)] by (simp add: assms(5) run_fields)
  from so have "aligned a"
    by (simp add: sound_def)
  then have "\<forall>l<levels a. \<forall>x\<in>free_blocks a ! l. S * 2 ^ l dvd x"
    and "\<forall>x sz. allocated_blocks a x = Some sz \<longrightarrow> sz dvd x"
    by (simp_all add: aligned_def S push_bit_eq_mult)
  moreover have "\<exists>sz. allocated_blocks a' addr = Some sz \<and> sz dvd addr"
    if "pop_ok pop" and "allocate p pop a R = (a', Returned (Some addr))" for pop R a' addr
    using so that by (rule sound_allocate(2))
  ultimately show ?thesis
    by blast
qed

theorem alignment_invariant_witness:
  "256 \<in> free_blocks scenario_1 ! 1 \<and> (128::int) * 2 ^ 1 dvd 256 \<and>
   (\<exists>a' sz. allocate ideal Min scenario_1 128 = (a', Returned (Some 128)) \<and>
      allocated_blocks a' 128 = Some sz \<and> sz dvd 128)"
proof -
  note ok = platform_ok_ideal
  have 1: "(0::int) < 128" and 2: "init ideal (128 * 2 ^ 3) 128 = Returned fresh_1024_128"
    by (simp_all add: init_1024_128 ok)
  have 3: "\<forall>c\<in>set [Allocate Min 128]. call_ok c"
    by (simp add: pop_ok_Min)
  have 4: "scenario_1 = run ideal fresh_1024_128 [Allocate Min 128]"
    by (simp add: run_def scenario_step_1 pop_ok_Min ok)
  have 5: "(1::nat) < levels scenario_1" "256 \<in> free_blocks scenario_1 ! 1"
    by (simp_all add: scenario_1_def)
  note inst = alignment_invariant [OF ok 1 2 3 4]
  from inst 5 have "(128::int) * 2 ^ 1 dvd 256"
    by blast
  moreover from inst pop_ok_Min scenario_step_2 [OF ok pop_ok_Min]
  have "\<exists>sz. allocated_blocks scenario_2 128 = Some sz \<and> sz dvd 128"
    by blast
  ultimately show ?thesis
    using 5(2) scenario_step_2 [OF ok pop_ok_Min] by blast
qed

subsection \<open>The memory map\<close>

lemma invariant_fresh_1024_128: "invariant fresh_1024_128"
  using invariant_init [OF platform_ok_ideal, of 128 3 fresh_1024_128]
    init_1024_128 [OF platform_ok_ideal] by simp

lemma map_example_run:
  "run ideal fresh_1024_128 [Allocate Min 128, Allocate Min 128, Deallocate 0] = map_example"
  by (simp add: run_def map_example_def fresh_1024_128_def eval_simps eval_nat_numeral fun_upd_twist)

lemma upt_4: "[0..<4] = [0, 1, 2, 3]"
  by (simp add: eval_nat_numeral upt_rec)

lemma map_example_entries:
  "memory_map_entries map_example =
    [(Allocated, 128, 128), (Free, 0, 128), (Free, 256, 256), (Free, 512, 512)]"
  by (simp add: memory_map_entries_def map_example_def upt_4 push_bit_eq_mult)

lemma sorted_wrt_irrefl_distinct:
  assumes "sorted_wrt R xs" and "\<And>x. \<not> R x x"
  shows "distinct xs"
  using assms by (induction xs) auto

lemma allocated_part:
  assumes "finite (dom m)"
  shows "set (map (\<lambda>x. (Allocated, x, the (m x))) (sorted_list_of_set (dom m))) =
      (\<lambda>x. (Allocated, x, the (m x))) ` dom m"
    and "sorted_wrt (\<lambda>b c. address b < address c)
      (map (\<lambda>x. (Allocated, x, the (m x))) (sorted_list_of_set (dom m)))"
  using assms by (simp_all add: sorted_wrt_map)

lemma free_part:
  fixes S :: int
  assumes S: "0 < S" and fin: "\<forall>l<n. finite (fb ! l)"
  shows "set (concat (map (\<lambda>l. map (\<lambda>x. (Free, x, push_bit l S)) (sorted_list_of_set (fb ! l))) [0..<n])) =
      (\<Union>l\<in>{..<n}. (\<lambda>x. (Free, x, push_bit l S)) ` (fb ! l))"
    and "sorted_wrt (\<lambda>b c. block_size b < block_size c \<or>
          (block_size b = block_size c \<and> address b < address c))
      (concat (map (\<lambda>l. map (\<lambda>x. (Free, x, push_bit l S)) (sorted_list_of_set (fb ! l))) [0..<n]))"
  using fin
proof (induction n)
  case 0
  {
    case 1
    show ?case by simp
  next
    case 2
    show ?case by simp
  }
next
  case (Suc n)
  let ?g = "\<lambda>l. map (\<lambda>x. (Free, x, push_bit l S)) (sorted_list_of_set (fb ! l))"
  {
    case 1
    then have fin': "\<forall>l<n. finite (fb ! l)" and finn: "finite (fb ! n)"
      by simp_all
    from Suc.IH(1) [OF fin'] finn show ?case
      by (simp add: lessThan_Suc Un_commute)
  next
    case 2
    then have fin': "\<forall>l<n. finite (fb ! l)" and finn: "finite (fb ! n)"
      by simp_all
    have lt: "push_bit l S < push_bit n S" if "l < n" for l
      using that S by (simp add: push_bit_eq_mult)
    from Suc.IH(1) [OF fin'] Suc.IH(2) [OF fin'] finn lt show ?case
      by (auto simp: sorted_wrt_append sorted_wrt_map)
  }
qed

lemma memory_map_entries_set:
  assumes "well_formed a"
  shows "set (memory_map_entries a) = blocks a"
proof -
  from assms have S: "0 < min_size a" and fin: "\<forall>l<levels a. finite (free_blocks a ! l)"
    and finm: "finite (dom (allocated_blocks a))"
    by (simp_all add: well_formed_def)
  show ?thesis
    unfolding memory_map_entries_def blocks_alt set_append
      allocated_part(1) [OF finm] free_part(1) [OF S fin]
    by (simp add: Un_commute)
qed

lemma memory_map_entries_order:
  assumes "well_formed a"
  shows "\<exists>as fs. memory_map_entries a = as @ fs \<and>
    (\<forall>b\<in>set as. fst b = Allocated) \<and> sorted_wrt (\<lambda>b c. address b < address c) as \<and>
    (\<forall>b\<in>set fs. fst b = Free) \<and>
    sorted_wrt (\<lambda>b c. block_size b < block_size c \<or>
      (block_size b = block_size c \<and> address b < address c)) fs"
proof -
  from assms have S: "0 < min_size a" and fin: "\<forall>l<levels a. finite (free_blocks a ! l)"
    and finm: "finite (dom (allocated_blocks a))"
    by (simp_all add: well_formed_def)
  let ?as = "map (\<lambda>addr. (Allocated, addr, the (allocated_blocks a addr)))
       (sorted_list_of_set (dom (allocated_blocks a)))"
  let ?fs = "concat (map (\<lambda>lvl. map (\<lambda>addr. (Free, addr, push_bit lvl (min_size a)))
                          (sorted_list_of_set (free_blocks a ! lvl))) [0..<levels a])"
  have "memory_map_entries a = ?as @ ?fs"
    by (simp add: memory_map_entries_def)
  moreover have "\<forall>b\<in>set ?as. fst b = Allocated"
    by auto
  moreover have "\<forall>b\<in>set ?fs. fst b = Free"
    by auto
  moreover note allocated_part(2) [OF finm] free_part(2) [OF S fin]
  ultimately show ?thesis
    by blast
qed

lemma memory_map_entries_distinct:
  assumes "well_formed a"
  shows "distinct (memory_map_entries a)"
proof -
  from memory_map_entries_order [OF assms] obtain as fs
    where eq: "memory_map_entries a = as @ fs"
      and as: "\<forall>b\<in>set as. fst b = Allocated" "sorted_wrt (\<lambda>b c. address b < address c) as"
      and fs: "\<forall>b\<in>set fs. fst b = Free"
        "sorted_wrt (\<lambda>b c. block_size b < block_size c \<or>
          (block_size b = block_size c \<and> address b < address c)) fs"
    by blast
  from as(2) have "distinct as"
    by (rule sorted_wrt_irrefl_distinct) simp
  moreover from fs(2) have "distinct fs"
    by (rule sorted_wrt_irrefl_distinct) simp
  moreover from as(1) fs(1) have "set as \<inter> set fs = {}"
    by force
  ultimately show ?thesis
    by (simp add: eq)
qed

lemma map_example_text:
  "snd (memory_map map_example) = Returned (
     ''Buddy System Memory Map (1024MB total)'' @ newline @
     ''------------------------------------------------------------'' @ newline @
     ''Allocated:      128-     255 (128MB)'' @ newline @
     ''Free:            0-     127 (128MB)'' @ newline @
     ''Free:          256-     511 (256MB)'' @ newline @
     ''Free:          512-    1023 (512MB)'' @ newline)"
proof -
  have "str_int 1024 = ''1024''"
    by code_simp
  moreover have "replicate 60 CHR ''-'' = ''------------------------------------------------------------''"
    by code_simp
  moreover have "map_line (Allocated, 128, 128) = ''Allocated:      128-     255 (128MB)'' @ newline"
    "map_line (Free, 0, 128) = ''Free:            0-     127 (128MB)'' @ newline"
    "map_line (Free, 256, 256) = ''Free:          256-     511 (256MB)'' @ newline"
    "map_line (Free, 512, 512) = ''Free:          512-    1023 (512MB)'' @ newline"
    by code_simp+
  ultimately show ?thesis
    unfolding memory_map_def map_example_entries by (simp add: map_example_def)
qed

text \<open>
  Claim C8 (output of the memory map), as the specification states it, does not hold: after
  allocate(128), allocate(128), deallocate(0) on the fresh allocator of 1024 over 128 the
  map lists the allocated block at 128 before the free block at 0, so its entries are not
  in ascending address order. The text returned is shown with it.
\<close>

theorem memory_map_order_counterexample:
  "run ideal fresh_1024_128 [Allocate Min 128, Allocate Min 128, Deallocate 0] = map_example \<and>
   memory_map_entries map_example =
     [(Allocated, 128, 128), (Free, 0, 128), (Free, 256, 256), (Free, 512, 512)] \<and>
   \<not> sorted (map address (memory_map_entries map_example)) \<and>
   snd (memory_map map_example) = Returned (
     ''Buddy System Memory Map (1024MB total)'' @ newline @
     ''------------------------------------------------------------'' @ newline @
     ''Allocated:      128-     255 (128MB)'' @ newline @
     ''Free:            0-     127 (128MB)'' @ newline @
     ''Free:          256-     511 (256MB)'' @ newline @
     ''Free:          512-    1023 (512MB)'' @ newline)"
proof -
  have "\<not> sorted (map address (memory_map_entries map_example))"
    unfolding map_example_entries by simp
  with map_example_run map_example_entries map_example_text show ?thesis
    by simp
qed

text \<open>
  Claim C8 as amended. For every allocator that satisfies the invariants, \<^verbatim>\<open>memory_map\<close>
  returns the allocator unchanged and a text of two header lines and one line per entry.
  The entries are first the allocated blocks in ascending address order, then the free
  blocks in ascending order of size, that is level by level, and of address within a
  level. Every block of the allocator is listed exactly once, and the entries tile the
  range from 0 to the total size: no overlaps and no gaps.
\<close>

theorem memory_map_listing:
  assumes "invariant a"
  shows "memory_map a =
      (a, Returned (''Buddy System Memory Map ('' @ str_int (total_size a) @ ''MB total)'' @ newline @
         replicate 60 CHR ''-'' @ newline @ concat (map map_line (memory_map_entries a)))) \<and>
    (\<exists>as fs. memory_map_entries a = as @ fs \<and>
       (\<forall>b\<in>set as. fst b = Allocated) \<and> sorted_wrt (\<lambda>b c. address b < address c) as \<and>
       (\<forall>b\<in>set fs. fst b = Free) \<and>
       sorted_wrt (\<lambda>b c. block_size b < block_size c \<or>
         (block_size b = block_size c \<and> address b < address c)) fs) \<and>
    distinct (memory_map_entries a) \<and>
    set (memory_map_entries a) = blocks a \<and>
    tiling (set (memory_map_entries a)) {} (total_size a)"
proof -
  from assms have wf: "well_formed a" and ti: "tiling (blocks a) {} (total_size a)"
    by (simp_all add: invariant_def holding_def)
  from wf have "\<not> length (free_blocks a) < levels a"
    by (simp add: well_formed_def)
  then have "memory_map a =
      (a, Returned (''Buddy System Memory Map ('' @ str_int (total_size a) @ ''MB total)'' @ newline @
         replicate 60 CHR ''-'' @ newline @ concat (map map_line (memory_map_entries a))))"
    by (simp add: memory_map_def)
  moreover note memory_map_entries_order [OF wf] memory_map_entries_distinct [OF wf]
    memory_map_entries_set [OF wf]
  moreover from ti have "tiling (set (memory_map_entries a)) {} (total_size a)"
    by (simp only: memory_map_entries_set [OF wf])
  ultimately show ?thesis
    by (intro conjI)
qed

theorem memory_map_listing_witness:
  "fst (memory_map map_example) = map_example \<and>
   distinct (memory_map_entries map_example) \<and>
   set (memory_map_entries map_example) = blocks map_example"
proof -
  have "levels fresh_1024_128 \<le> 1024"
    by (simp add: fresh_1024_128_def)
  with platform_ok_ideal invariant_fresh_1024_128
  have "invariant (run ideal fresh_1024_128 [Allocate Min 128, Allocate Min 128, Deallocate 0])"
    by (rule invariant_run) (simp add: pop_ok_Min)
  then have "invariant map_example"
    by (simp only: map_example_run)
  from memory_map_listing [OF this] show ?thesis
    by simp
qed

subsection \<open>Allocation undone by deallocation\<close>

lemma xor_add_power_of_two:
  fixes x :: int
  assumes "2 * 2 ^ e dvd x"
  shows "x XOR 2 ^ e = x + 2 ^ e"
proof -
  from assms obtain m where "x = 2 * 2 ^ e * m"
    by (auto elim: dvdE)
  then have "x div 2 ^ e = 2 * m"
    by simp
  then have nb: "\<not> bit x e"
    by (simp add: bit_iff_odd)
  have "x AND 2 ^ e = 0"
    by (rule bit_eqI) (use nb in \<open>auto simp: bit_and_iff bit_exp_iff\<close>)
  then have "x + 2 ^ e = x XOR 2 ^ e"
    by (rule disjunctive_add_eq_xor)
  then show ?thesis
    by simp
qed

lemma split_result:
  assumes "k \<le> lvl" and "lvl \<le> length fb"
  shows "length (split S k addr fb lvl) = length fb \<and>
    (\<forall>j<length fb. split S k addr fb lvl ! j =
       (if k \<le> j \<and> j < lvl then insert (addr + push_bit j S) (fb ! j) else fb ! j))"
  using assms
proof (induction S k addr fb lvl rule: split.induct)
  case (1 S k addr fb lvl)
  show ?case
  proof (cases "k < lvl")
    case False
    then have "split S k addr fb lvl = fb"
      by (simp add: split.simps [of S k addr fb lvl])
    with False show ?thesis
      by auto
  next
    case True
    then obtain n where lvl: "lvl = Suc n"
      by (cases lvl) simp_all
    let ?fb = "fb[n := insert (addr + push_bit n S) (fb ! n)]"
    have eq: "split S k addr fb lvl = split S k addr ?fb n"
      using True unfolding lvl by (simp add: split.simps [of S k addr fb "Suc n"] Let_def)
    have n_eq: "n = lvl - 1" and kn: "k \<le> n" and nl: "n \<le> length ?fb"
      using True "1.prems"(2) lvl by simp_all
    from "1.IH" [OF True n_eq refl kn nl]
    have ih: "length (split S k addr ?fb n) = length fb"
      "\<forall>j<length fb. split S k addr ?fb n ! j =
         (if k \<le> j \<and> j < n then insert (addr + push_bit j S) (?fb ! j) else ?fb ! j)"
      by simp_all
    have "split S k addr ?fb n ! j =
        (if k \<le> j \<and> j < lvl then insert (addr + push_bit j S) (fb ! j) else fb ! j)"
      if "j < length fb" for j
      using ih(2) that kn by (auto simp: lvl nth_list_update less_Suc_eq)
    with ih(1) show ?thesis
      unfolding eq by simp
  qed
qed

lemma coalesce_up:
  assumes S: "S = 2 ^ t" and "k \<le> lvl" and "lvl < length g" and L: "L = length g"
    and "push_bit lvl S dvd addr"
    and "\<forall>j. k \<le> j \<and> j < lvl \<longrightarrow> g ! j = {addr + push_bit j S}"
    and "Suc lvl < L \<longrightarrow> addr XOR push_bit lvl S \<notin> g ! lvl"
  shows "\<exists>g'. coalesce S L g addr k = (g', Returned (addr, lvl)) \<and> length g' = length g \<and>
    (\<forall>j<length g. g' ! j = (if k \<le> j \<and> j < lvl then {} else g ! j))"
  using assms(2,3,4,6,7)
proof (induction "lvl - k" arbitrary: k g)
  case 0
  then have k: "k = lvl"
    by simp
  have cond: "int lvl < int L - 1 \<longleftrightarrow> Suc lvl < L"
    by linarith
  from "0.prems"(2,5) cond have "coalesce S L g addr lvl = (g, Returned (addr, lvl))"
    by (auto simp: coalesce.simps [of S L g addr lvl] Let_def)
  then show ?case
    unfolding k by auto
next
  case (Suc d)
  then have lt: "k < lvl"
    by simp
  let ?M = "push_bit k S"
  have M: "?M = 2 ^ (t + k)"
    by (simp add: S push_bit_eq_mult power_add)
  have "push_bit (Suc k) S dvd push_bit lvl S"
    using lt by (intro push_bit_dvd_mono) simp
  then have "push_bit (Suc k) S dvd addr"
    using assms(5) by (rule dvd_trans)
  moreover have "push_bit (Suc k) S = 2 * 2 ^ (t + k)"
    by (simp add: S push_bit_eq_mult power_add)
  ultimately have "2 * 2 ^ (t + k) dvd addr"
    by simp
  then have bud: "addr XOR ?M = addr + ?M"
    unfolding M by (rule xor_add_power_of_two)
  have gk: "g ! k = {addr + ?M}"
    using Suc.prems(4) lt by simp
  have pos: "0 < ?M"
    unfolding M by simp
  let ?g = "g[k := g ! k - {addr XOR ?M}]"
  have c1: "int k < int L - 1" and c2: "\<not> length g \<le> k"
    using lt Suc.prems(2,3) by simp_all
  have mn: "min addr (addr XOR ?M) = addr"
    unfolding bud using pos by linarith
  have mem: "addr XOR ?M \<in> g ! k"
    unfolding bud gk by simp
  have step: "coalesce S L g addr k = coalesce S L ?g addr (Suc k)"
    using c1 c2 mem by (simp add: coalesce.simps [of S L g addr k] Let_def mn)
  have d: "d = lvl - Suc k" and le: "Suc k \<le> lvl" and len: "lvl < length ?g" "L = length ?g"
    using Suc.hyps(2) lt Suc.prems(2,3) by simp_all
  have sing: "\<forall>j. Suc k \<le> j \<and> j < lvl \<longrightarrow> ?g ! j = {addr + push_bit j S}"
    using Suc.prems(4) by (auto simp: nth_list_update)
  have top: "Suc lvl < L \<longrightarrow> addr XOR push_bit lvl S \<notin> ?g ! lvl"
    using Suc.prems(5) lt by (simp add: nth_list_update)
  from Suc.hyps(1) [OF d le len sing top]
  obtain g' where g': "coalesce S L ?g addr (Suc k) = (g', Returned (addr, lvl))"
    "length g' = length g"
    "\<forall>j<length g. g' ! j = (if Suc k \<le> j \<and> j < lvl then {} else ?g ! j)"
    by auto
  have "g' ! j = (if k \<le> j \<and> j < lvl then {} else g ! j)" if "j < length g" for j
    using g'(3) that gk bud lt by (auto simp: nth_list_update le_Suc_eq)
  with g'(1,2) step show ?case
    by simp
qed

subsection \<open>Invariant 4 is kept when the minimum block size is a power of two\<close>

lemma buddies_xor:
  assumes "buddies (2 ^ e) x y"
  shows "y = x XOR 2 ^ e"
proof -
  from assms consider "2 * 2 ^ e dvd x" "y = x + 2 ^ e" | "2 * 2 ^ e dvd y" "x = y + 2 ^ e"
    by (auto simp: buddies_def)
  then show ?thesis
  proof cases
    case 1
    then show ?thesis
      by (simp add: xor_add_power_of_two)
  next
    case 2
    then have "x = y XOR 2 ^ e"
      by (simp add: xor_add_power_of_two)
    then have "x XOR 2 ^ e = y XOR (2 ^ e XOR 2 ^ e)"
      by (simp only: xor.assoc)
    then show ?thesis
      by simp
  qed
qed

lemma not_buddies_self:
  fixes M :: int
  shows "0 < M \<Longrightarrow> \<not> buddies M x x"
  by (simp add: buddies_def)

lemma buddies_sym: "buddies M x y \<Longrightarrow> buddies M y x"
  by (auto simp: buddies_def)

lemma no_free_buddies_coalesce:
  assumes "\<forall>j<L. \<forall>x\<in>fb ! j. \<forall>y\<in>fb ! j. \<not> buddies (push_bit j S) x y"
    and "coalesce S L fb cur lvl = (fb', Returned (c, l))"
  shows "(\<forall>j<L. \<forall>x\<in>fb' ! j. \<forall>y\<in>fb' ! j. \<not> buddies (push_bit j S) x y) \<and>
    (Suc l < L \<longrightarrow> c XOR push_bit l S \<notin> fb' ! l)"
  using assms
proof (induction S L fb cur lvl rule: coalesce.induct)
  case (1 S L fb cur lvl)
  let ?buddy = "cur XOR push_bit lvl S"
  have cond: "int lvl < int L - 1 \<longleftrightarrow> Suc lvl < L"
    by linarith
  show ?case
  proof (cases "Suc lvl < L \<and> lvl < length fb \<and> ?buddy \<in> fb ! lvl")
    case False
    with "1.prems"(2) cond have "fb' = fb \<and> c = cur \<and> l = lvl"
      and "Suc lvl < L \<longrightarrow> ?buddy \<notin> fb ! lvl"
      by (auto simp: coalesce.simps [of S L fb cur lvl] Let_def split: if_splits)
    with "1.prems"(1) show ?thesis
      by simp
  next
    case True
    let ?fb = "fb[lvl := fb ! lvl - {?buddy}]"
    from True cond have c1: "int lvl < int L - 1" and c2: "\<not> length fb \<le> lvl"
      and mem: "?buddy \<in> fb ! lvl"
      by simp_all
    from "1.prems"(2) c1 c2 mem
    have rec: "coalesce S L ?fb (min cur ?buddy) (Suc lvl) = (fb', Returned (c, l))"
      by (simp add: coalesce.simps [of S L fb cur lvl] Let_def)
    have sub: "\<forall>j<L. \<forall>x\<in>?fb ! j. \<forall>y\<in>?fb ! j. \<not> buddies (push_bit j S) x y"
      using "1.prems"(1) c2 by (auto simp: nth_list_update)
    from c1 refl c2 mem sub rec show ?thesis
      by (rule "1.IH")
  qed
qed

lemma interval_full:
  fixes M y :: int
  assumes "0 < M" and "{y ..< y + M} \<subseteq> {0 ..< M}"
  shows "y = 0"
proof -
  from assms(1) have "y \<in> {y ..< y + M}" and "y + M - 1 \<in> {y ..< y + M}"
    by simp_all
  with assms(2) have "y \<in> {0 ..< M}" and "y + M - 1 \<in> {0 ..< M}"
    by blast+
  then show ?thesis
    by simp
qed

lemma no_free_buddies_allocate:
  assumes inv: "invariant a" and nfb: "no_free_buddies a" and pop: "pop_ok pop"
  shows "no_free_buddies (fst (allocate p pop a R))"
proof -
  let ?S = "min_size a"
  let ?fb = "free_blocks a"
  from inv have wf: "well_formed a"
    by (simp add: invariant_def holding_def)
  then have Spos: "0 < ?S" and len: "length ?fb = levels a"
    by (simp_all add: well_formed_def)
  from len have len': "levels a \<le> length ?fb"
    by simp
  show ?thesis
  proof (cases "get_level p a R")
    case (Raised e)
    from allocate_Raised [OF this] nfb show ?thesis
      by simp
  next
    case (Returned k)
    note k = this
    from len' show ?thesis
    proof (cases rule: find_free_cases [where k = k])
      case 1
      from allocate_None [OF k len' 1(2)] nfb show ?thesis
        by simp
    next
      case (2 lvl)
      let ?addr = "pop (?fb ! lvl)"
      let ?fb1 = "?fb[lvl := ?fb ! lvl - {?addr}]"
      let ?fb2 = "split ?S k ?addr ?fb1 lvl"
      have lvl1: "lvl \<le> length ?fb1"
        using 2(3) len by simp
      from split_result [OF 2(2) lvl1, of ?S ?addr]
      have nth2: "\<forall>j<length ?fb1. ?fb2 ! j =
         (if k \<le> j \<and> j < lvl then insert (?addr + push_bit j ?S) (?fb1 ! j) else ?fb1 ! j)"
        by blast
      have "\<not> buddies (push_bit j ?S) x y" if j: "j < levels a" and x: "x \<in> ?fb2 ! j"
        and y: "y \<in> ?fb2 ! j" for j x y
      proof (cases "k \<le> j \<and> j < lvl")
        case True
        with 2(5) have "?fb1 ! j = {}"
          by (simp add: nth_list_update)
        moreover have "j < length ?fb1"
          using j len by simp
        with nth2 have "?fb2 ! j =
            (if k \<le> j \<and> j < lvl then insert (?addr + push_bit j ?S) (?fb1 ! j) else ?fb1 ! j)"
          by blast
        ultimately have "?fb2 ! j = {?addr + push_bit j ?S}"
          using True by simp
        with x y have "x = ?addr + push_bit j ?S" and "y = x"
          by simp_all
        moreover have "0 < push_bit j ?S"
          using Spos by (rule push_bit_pos)
        ultimately show ?thesis
          by (simp add: not_buddies_self)
      next
        case False
        have "j < length ?fb1"
          using j len by simp
        with nth2 have "?fb2 ! j =
            (if k \<le> j \<and> j < lvl then insert (?addr + push_bit j ?S) (?fb1 ! j) else ?fb1 ! j)"
          by blast
        then have "?fb2 ! j = ?fb1 ! j"
          by (simp only: False if_False)
        also have "\<dots> \<subseteq> ?fb ! j"
          using j len by (cases "j = lvl") auto
        finally have "x \<in> ?fb ! j" and "y \<in> ?fb ! j"
          using x y by blast+
        with nfb j show ?thesis
          unfolding no_free_buddies_def by blast
      qed
      then have "no_free_buddies (a\<lparr>free_blocks := ?fb2,
          allocated_blocks := (allocated_blocks a)(?addr \<mapsto> push_bit k ?S)\<rparr>)"
        by (simp add: no_free_buddies_def)
      with allocate_Some [OF k len' 2(2-), of pop] show ?thesis
        by simp
    qed
  qed
qed

lemma no_free_buddies_deallocate:
  assumes ok: "platform_ok p" and inv: "invariant a" and nfb: "no_free_buddies a"
    and S: "min_size a = 2 ^ t" and bound: "levels a \<le> 1024"
  shows "no_free_buddies (fst (deallocate p a addr))"
proof (cases "allocated_blocks a addr")
  case None
  with nfb show ?thesis
    by (simp add: deallocate_def)
next
  case (Some sz)
  let ?S = "min_size a"
  let ?L = "levels a"
  let ?a1 = "a\<lparr>allocated_blocks := (allocated_blocks a)(addr := None)\<rparr>"
  from inv have h: "holding a {}"
    by (simp add: invariant_def)
  then have wf: "well_formed a" and al: "aligned a"
    by (simp_all add: holding_def)
  from wf have Spos: "0 < ?S"
    and shape: "\<forall>x sz. allocated_blocks a x = Some sz \<longrightarrow> (\<exists>k<?L. sz = push_bit k ?S)"
    and T: "total_size a = push_bit (?L - 1) ?S"
    by (simp_all add: well_formed_def)
  from shape Some obtain k where k: "k < ?L" and sz: "sz = push_bit k ?S"
    by blast
  from al Some have dv: "sz dvd addr"
    by (simp add: aligned_def)
  from k bound have "k \<le> 1023"
    by simp
  with ok Spos have "get_level p a (push_bit k ?S) = Returned k"
    by (rule get_level_push_bit)
  then have lev: "get_level p ?a1 sz = Returned k"
    by (simp add: sz)
  from holding_allocated_remove [OF h Some]
  have "holding (?a1\<lparr>free_blocks := free_blocks a\<rparr>) {addr ..< addr + push_bit k ?S}"
    by (simp add: sz)
  then have "\<exists>fb' c l. coalesce ?S ?L (free_blocks a) addr k = (fb', Returned (c, l)) \<and>
      l < ?L \<and> holding (?a1\<lparr>free_blocks := fb'\<rparr>) {c ..< c + push_bit l ?S} \<and>
      push_bit l ?S dvd c"
    by (rule holding_coalesce) (use k dv sz in simp_all)
  then obtain fb' c l where co: "coalesce ?S ?L (free_blocks a) addr k = (fb', Returned (c, l))"
    and l: "l < ?L" and h1: "holding (?a1\<lparr>free_blocks := fb'\<rparr>) {c ..< c + push_bit l ?S}"
    by blast
  let ?a2 = "?a1\<lparr>free_blocks := fb'\<rparr>"
  let ?M = "push_bit l ?S"
  have M: "0 < ?M"
    using Spos by (rule push_bit_pos)
  have Mpow: "?M = 2 ^ (t + l)"
    by (simp add: S push_bit_eq_mult power_add)
  from h1 have wf2: "well_formed ?a2" and ti: "tiling (blocks ?a2) {c ..< c + ?M} (total_size a)"
    by (simp_all add: holding_def)
  from wf2 have len: "length fb' = ?L"
    by (simp add: well_formed_def)
  from nfb have "\<forall>j<?L. \<forall>x\<in>free_blocks a ! j. \<forall>y\<in>free_blocks a ! j. \<not> buddies (push_bit j ?S) x y"
    by (simp add: no_free_buddies_def)
  from no_free_buddies_coalesce [OF this co]
  have nfb': "\<forall>j<?L. \<forall>x\<in>fb' ! j. \<forall>y\<in>fb' ! j. \<not> buddies (push_bit j ?S) x y"
    and exit: "Suc l < ?L \<longrightarrow> c XOR ?M \<notin> fb' ! l"
    by blast+
  have fresh: "\<not> buddies ?M c y" if y: "y \<in> fb' ! l" for y
  proof
    assume b: "buddies ?M c y"
    show False
    proof (cases "Suc l < ?L")
      case True
      from b have "y = c XOR ?M"
        unfolding Mpow by (rule buddies_xor)
      with exit True y show False
        by simp
    next
      case False
      with l have "l = ?L - 1"
        by linarith
      then have "?M = total_size a"
        by (simp only: T)
      moreover from y l have blk: "(Free, y, ?M) \<in> blocks ?a2"
        by (auto simp: blocks_def)
      moreover from ti blk have "region (Free, y, ?M) \<inter> {c ..< c + ?M} = {}"
        and "region (Free, y, ?M) \<subseteq> {0 ..< total_size a}"
        and "{c ..< c + ?M} \<subseteq> {0 ..< total_size a}"
        unfolding tiling_def by blast+
      ultimately have "{y ..< y + ?M} \<inter> {c ..< c + ?M} = {}"
        and "{y ..< y + ?M} \<subseteq> {0 ..< ?M}" and "{c ..< c + ?M} \<subseteq> {0 ..< ?M}"
        by simp_all
      then have "y = 0" and "c = 0"
        using M by (blast intro: interval_full)+
      with b M show False
        by (simp add: not_buddies_self)
    qed
  qed
  have "\<not> buddies (push_bit j ?S) x y" if j: "j < ?L"
    and x: "x \<in> fb'[l := insert c (fb' ! l)] ! j" and y: "y \<in> fb'[l := insert c (fb' ! l)] ! j"
    for j x y
  proof (cases "j = l")
    case False
    with x y have "x \<in> fb' ! j" "y \<in> fb' ! j"
      by simp_all
    with nfb' j show ?thesis
      by blast
  next
    case True
    with x y len l have xy: "x = c \<or> x \<in> fb' ! l" "y = c \<or> y \<in> fb' ! l"
      by simp_all
    show ?thesis
    proof
      assume b: "buddies (push_bit j ?S) x y"
      then have b': "buddies ?M x y" and b'': "buddies ?M y x"
        unfolding True by (simp_all add: buddies_sym)
      from xy consider "x = c" "y = c" | "x = c" "y \<in> fb' ! l" | "x \<in> fb' ! l" "y = c"
        | "x \<in> fb' ! l" "y \<in> fb' ! l"
        by blast
      then show False
      proof cases
        case 1
        with b' M show False
          by (simp add: not_buddies_self)
      next
        case 2
        with b' fresh show False
          by blast
      next
        case 3
        with b'' fresh show False
          by blast
      next
        case 4
        with b' nfb' l show False
          by blast
      qed
    qed
  qed
  then have "no_free_buddies (?a1\<lparr>free_blocks := fb'[l := insert c (fb' ! l)]\<rparr>)"
    by (simp add: no_free_buddies_def)
  moreover have "deallocate p a addr =
      (?a1\<lparr>free_blocks := fb'[l := insert c (fb' ! l)]\<rparr>, Returned True)"
    using Some lev co l len by (simp add: deallocate_def Let_def)
  ultimately show ?thesis
    by simp
qed

lemma no_free_buddies_init:
  assumes ok: "platform_ok p" and S: "0 < S" and init: "init p (S * 2 ^ n) S = Returned a"
  shows "no_free_buddies a"
proof -
  from init init_power [OF ok S, of n]
  have a: "a = \<lparr>total_size = S * 2 ^ n, min_size = S, levels = Suc n,
       free_blocks = replicate n {} @ [{0}], allocated_blocks = Map.empty\<rparr>"
    by simp
  have nth: "(replicate n {} @ [{0::int}]) ! l = (if l = n then {0} else {})" if "l < Suc n" for l
    using that by (auto simp: nth_append)
  have "\<not> buddies (push_bit l S) x y"
    if "l < Suc n" "x \<in> (replicate n {} @ [{0::int}]) ! l" "y \<in> (replicate n {} @ [{0::int}]) ! l"
    for l x y
  proof -
    from that nth [OF that(1)] have "x = 0" and "y = 0"
      by (simp_all split: if_splits)
    moreover have "0 < push_bit l S"
      using S by (rule push_bit_pos)
    ultimately show ?thesis
      by (simp add: not_buddies_self)
  qed
  then show ?thesis
    by (simp add: a no_free_buddies_def del: replicate.simps)
qed

text \<open>
  All four invariants hold in every state that an allocator of at most 1024 levels over a
  power of two reaches.
\<close>

lemma reachable_invariants:
  assumes ok: "platform_ok p"
    and "invariant a" and "no_free_buddies a" and "min_size a = 2 ^ t" and "levels a \<le> 1024"
    and "\<forall>c\<in>set cs. call_ok c"
  shows "invariant (run p a cs) \<and> no_free_buddies (run p a cs) \<and> min_size (run p a cs) = 2 ^ t"
  using assms(2-) unfolding run_def
proof (induction cs arbitrary: a)
  case Nil
  then show ?case
    by simp
next
  case (Cons c cs)
  from Cons.prems(1,4,5) have inv: "invariant (perform p a c)"
    by (simp add: invariant_perform [OF ok])
  have nfb: "no_free_buddies (perform p a c)"
  proof (cases c)
    case (Allocate pop R)
    with Cons.prems show ?thesis
      by (simp add: no_free_buddies_allocate)
  next
    case (Deallocate addr)
    with Cons.prems(1,2,3,4) show ?thesis
      by (simp add: no_free_buddies_deallocate [OF ok])
  qed
  have S: "min_size (perform p a c) = 2 ^ t" and L: "levels (perform p a c) \<le> 1024"
    using Cons.prems(3,4) by (simp_all add: perform_fields)
  from Cons.prems(5) have "\<forall>c\<in>set cs. call_ok c"
    by simp
  with Cons.IH [OF inv nfb S L] show ?case
    by simp
qed

subsection \<open>The round trip\<close>

lemma init_24_3: "init ideal 24 3 = Returned fresh_24_3"
  using init_power [OF platform_ok_ideal, of 3 3] by (simp add: fresh_24_3_def numeral_eq_Suc)

lemma odd_unit_before_run:
  "run ideal fresh_24_3 [Allocate Min 3, Allocate Min 3] = odd_unit_before"
  by (simp add: run_def fresh_24_3_def odd_unit_before_def eval_simps eval_nat_numeral)

lemma invariant_odd_unit_before: "invariant odd_unit_before"
proof -
  have "invariant fresh_24_3"
    using init_24_3 invariant_init [OF platform_ok_ideal, of 3 3 fresh_24_3] by simp
  moreover have "levels fresh_24_3 \<le> 1024"
    by (simp add: fresh_24_3_def)
  ultimately have "invariant (run ideal fresh_24_3 [Allocate Min 3, Allocate Min 3])"
    using platform_ok_ideal by (intro invariant_run) (simp_all add: pop_ok_Min)
  then show ?thesis
    by (simp only: odd_unit_before_run)
qed

lemma no_free_buddies_odd_unit_before: "no_free_buddies odd_unit_before"
  by (simp add: no_free_buddies_def odd_unit_before_def buddies_def push_bit_eq_mult
      eval_nat_numeral All_less_Suc)

lemma no_free_buddies_fresh_1024_128: "no_free_buddies fresh_1024_128"
  by (simp add: no_free_buddies_def fresh_1024_128_def buddies_def push_bit_eq_mult
      eval_nat_numeral All_less_Suc)

text \<open>
  Claim C2 (round trip). The code does not keep it when the minimum block size is not a
  power of two. The allocator constructed for 24 over 3 reaches, by two allocations of
  size 3, a state that satisfies the four invariants (\<open>invariant_odd_unit_before\<close> and
  \<open>no_free_buddies_odd_unit_before\<close>). Allocating size 3 there returns address 6, split
  off the free block 6 of level 1, whose other half the split loop puts into the free set
  of level 0 at the address \<open>6 + 3\<close>. Deallocating 6 then looks for the buddy at the
  exclusive or of 6 and 3, which is 5 and not 9, finds nothing, and leaves the blocks 6
  and 9 both free at level 0 instead of the block 6 at level 1.
\<close>

theorem round_trip_counterexample:
  "init ideal 24 3 = Returned fresh_24_3 \<and>
   run ideal fresh_24_3 [Allocate Min 3, Allocate Min 3] = odd_unit_before \<and>
   allocate ideal Min odd_unit_before 3 = (odd_unit_allocated, Returned (Some 6)) \<and>
   deallocate ideal odd_unit_allocated 6 = (odd_unit_after, Returned True) \<and>
   free_blocks odd_unit_before = [{}, {6}, {12}, {}] \<and>
   free_blocks odd_unit_after = [{6, 9}, {}, {12}, {}] \<and>
   free_blocks odd_unit_after \<noteq> free_blocks odd_unit_before"
proof -
  have "allocate ideal Min odd_unit_before 3 = (odd_unit_allocated, Returned (Some 6))"
    by (simp add: odd_unit_before_def odd_unit_allocated_def eval_simps eval_nat_numeral)
  moreover have "deallocate ideal odd_unit_allocated 6 = (odd_unit_after, Returned True)"
    by (simp add: odd_unit_allocated_def odd_unit_after_def eval_simps eval_nat_numeral
        fun_upd_twist)
  moreover have "free_blocks odd_unit_before = [{}, {6}, {12}, {}]"
    "free_blocks odd_unit_after = [{6, 9}, {}, {12}, {}]"
    by (simp_all add: odd_unit_before_def odd_unit_after_def)
  ultimately show ?thesis
    using init_24_3 odd_unit_before_run by simp
qed

text \<open>
  Where the exclusive or and the sum agree, the loops undo each other. When the minimum
  block size is a power of two and the allocator has at most 1024 levels, then for every
  allocator that satisfies the four invariants, every choice of \<^verbatim>\<open>pop()\<close> and every
  request for which \<^verbatim>\<open>allocate\<close> returns an address, \<^verbatim>\<open>deallocate\<close> of that address
  right away succeeds and returns the allocator as it was before the allocation. By
  \<open>reachable_invariants\<close> the assumptions hold in every state that such an allocator
  reaches.
\<close>

lemma round_trip_power_of_two:
  assumes ok: "platform_ok p" and inv: "invariant a" and nfb: "no_free_buddies a"
    and S: "min_size a = 2 ^ t" and bound: "levels a \<le> 1024"
    and pop: "pop_ok pop" and alloc: "allocate p pop a R = (a', Returned (Some addr))"
  shows "deallocate p a' addr = (a, Returned True)"
proof -
  let ?S = "min_size a"
  let ?fb = "free_blocks a"
  let ?m = "allocated_blocks a"
  from inv have h: "holding a {}"
    by (simp add: invariant_def)
  then have wf: "well_formed a" and al: "aligned a"
    by (simp_all add: holding_def)
  from wf have Spos: "0 < ?S" and len: "length ?fb = levels a"
    by (simp_all add: well_formed_def)
  obtain k where k: "get_level p a R = Returned k"
  proof (cases "get_level p a R")
    case (Raised e)
    from allocate_Raised [OF this] alloc show ?thesis
      by simp
  next
    case (Returned k)
    with that show ?thesis
      by blast
  qed
  from len have len': "levels a \<le> length ?fb"
    by simp
  then obtain lvl where found: "k \<le> lvl" "lvl < levels a" "?fb ! lvl \<noteq> {}"
      "\<forall>l. k \<le> l \<and> l < lvl \<longrightarrow> ?fb ! l = {}"
  proof (cases rule: find_free_cases [where k = k])
    case 1
    from allocate_None [OF k len' 1(2)] alloc show ?thesis
      by simp
  next
    case (2 lvl)
    with that show ?thesis
      by blast
  qed
  let ?addr = "pop (?fb ! lvl)"
  let ?fb1 = "?fb[lvl := ?fb ! lvl - {?addr}]"
  let ?fb2 = "split ?S k ?addr ?fb1 lvl"
  from allocate_Some [OF k len' found, of pop] alloc
  have addr: "addr = ?addr"
    and a': "a' = a\<lparr>free_blocks := ?fb2, allocated_blocks := ?m(?addr \<mapsto> push_bit k ?S)\<rparr>"
    by auto
  from wf found(2) have "finite (?fb ! lvl)"
    by (simp add: well_formed_def)
  with pop found(3) have mem: "?addr \<in> ?fb ! lvl"
    by (simp add: pop_ok_def)
  with al found(2) have dv: "push_bit lvl ?S dvd ?addr"
    by (simp add: aligned_def)
  have M: "0 < push_bit lvl ?S"
    using Spos by (rule push_bit_pos)
  from holding_free_remove [OF h found(2) mem]
  have "holding (a\<lparr>free_blocks := ?fb1\<rparr>) {?addr ..< ?addr + push_bit lvl ?S}"
    by simp
  moreover have "?addr \<in> {?addr ..< ?addr + push_bit lvl ?S}"
    using M by simp
  ultimately have "allocated_blocks (a\<lparr>free_blocks := ?fb1\<rparr>) ?addr = None"
    by (rule holding_not_allocated)
  then have none: "?m ?addr = None"
    by simp
  have top: "Suc lvl < levels a \<longrightarrow> ?addr XOR push_bit lvl ?S \<notin> ?fb1 ! lvl"
  proof (intro impI notI)
    assume "?addr XOR push_bit lvl ?S \<in> ?fb1 ! lvl"
    with found(2) len have y: "?addr XOR push_bit lvl ?S \<in> ?fb ! lvl"
      by simp
    with al found(2) have "push_bit lvl ?S dvd ?addr XOR push_bit lvl ?S"
      by (simp add: aligned_def)
    with M dv have "buddies (push_bit lvl ?S) ?addr (?addr XOR push_bit lvl ?S)"
      by (rule xor_buddy) simp
    with nfb found(2) mem y show False
      unfolding no_free_buddies_def by blast
  qed
  have lvl1: "lvl < length ?fb1" and lvl1': "lvl \<le> length ?fb1" and L1: "levels a = length ?fb1"
    using found(2) len by simp_all
  from split_result [OF found(1) lvl1', of ?S ?addr]
  have len2: "length ?fb2 = length ?fb1"
    and nth2: "\<forall>j<length ?fb1. ?fb2 ! j =
       (if k \<le> j \<and> j < lvl then insert (?addr + push_bit j ?S) (?fb1 ! j) else ?fb1 ! j)"
    by blast+
  have empty1: "?fb1 ! j = {}" if "k \<le> j" "j < lvl" for j
    using found(4) that by (simp add: nth_list_update)
  have sing: "\<forall>j. k \<le> j \<and> j < lvl \<longrightarrow> ?fb2 ! j = {?addr + push_bit j ?S}"
    using nth2 empty1 lvl1 by simp
  have top2: "Suc lvl < levels a \<longrightarrow> ?addr XOR push_bit lvl ?S \<notin> ?fb2 ! lvl"
    using top nth2 lvl1 by simp
  have lvl2: "lvl < length ?fb2" and L2: "levels a = length ?fb2"
    using lvl1 L1 len2 by simp_all
  from coalesce_up [OF S found(1) lvl2 L2 dv sing top2]
  obtain g' where co: "coalesce ?S (levels a) ?fb2 ?addr k = (g', Returned (?addr, lvl))"
    and leng: "length g' = length ?fb2"
    and nthg: "\<forall>j<length ?fb2. g' ! j = (if k \<le> j \<and> j < lvl then {} else ?fb2 ! j)"
    by blast
  have "g' = ?fb1"
  proof (rule nth_equalityI)
    show "length g' = length ?fb1"
      using leng len2 by simp
  next
    fix j assume "j < length g'"
    then have j: "j < length ?fb1"
      using leng len2 by simp
    with nthg nth2 len2 empty1 show "g' ! j = ?fb1 ! j"
      by auto
  qed
  with co have co': "coalesce ?S (levels a) ?fb2 ?addr k = (?fb1, Returned (?addr, lvl))"
    by simp
  have restore: "?fb1[lvl := insert ?addr (?fb1 ! lvl)] = ?fb"
    using mem found(2) len by (simp add: insert_absorb)
  have map: "(?m(?addr \<mapsto> push_bit k ?S))(?addr := None) = ?m"
    using none by (simp add: fun_upd_idem)
  from found(1,2) bound have "k \<le> 1023"
    by simp
  with ok Spos have lev: "get_level p a (push_bit k ?S) = Returned k"
    by (rule get_level_push_bit)
  have "deallocate p a' ?addr = (a, Returned True)"
    unfolding a' using co' restore map lev lvl1
    by (simp add: deallocate_def Let_def)
  then show ?thesis
    by (simp add: addr)
qed

lemma round_trip_power_of_two_example:
  "allocate ideal Min fresh_1024_128 128 = (scenario_1, Returned (Some 0)) \<and>
   deallocate ideal scenario_1 0 = (fresh_1024_128, Returned True)"
proof -
  note ok = platform_ok_ideal
  have 2: "min_size fresh_1024_128 = 2 ^ 7" and 3: "levels fresh_1024_128 \<le> 1024"
    by (simp_all add: fresh_1024_128_def)
  note 4 = scenario_step_1 [OF ok pop_ok_Min]
  from round_trip_power_of_two [OF ok invariant_fresh_1024_128 no_free_buddies_fresh_1024_128
      2 3 pop_ok_Min 4] 4
  show ?thesis
    by simp
qed

end
